theory Spec2Isabelle
  imports Main
begin

section \<open>The synchronization service (www/services/sync.js, emSync)\<close>

subsection \<open>Data\<close>

text \<open>
  A job's \<open>status\<close> field only ever holds one of the four string literals
  \<open>'pending'\<close>, \<open>'active'\<close>, \<open>'success'\<close>, \<open>'error'\<close>; \<open>type\<close> and \<open>mode\<close> are
  documented as \<open>'form'|'data'\<close> and \<open>'pull'|'push'|'both'\<close>.
\<close>

datatype job_status = Pending | Active | Success | Error

datatype job_type = Form | Data

datatype job_mode = Pull | Push | Both

text \<open>
  The reference \<open>{c: controller, f: function, vars: vars}\<close> used to build the server
  URL. A job keeps its table name and reference in the fields \<open>tableName\<close> and \<open>ref\<close>;
  they are called \<open>job_tableName\<close> and \<open>job_ref\<close> here, as a form list entry has fields
  of the same names.
\<close>

datatype ref = Ref (c: string) (f: string) (vars: "(string \<times> string) list")

record syncJob =
  type :: job_type
  mode :: job_mode
  job_tableName :: string
  job_ref :: ref
  status :: job_status

text \<open>
  The \<open>download\<close> property of a form list entry is read from an arbitrary looked-up
  object in \<open>updateFormList\<close>, so it can be \<open>undefined\<close> as well as a boolean.
\<close>

datatype jsflag = JUndefined | JBool bool

fun truthy :: "jsflag \<Rightarrow> bool" where
  "truthy JUndefined = False"
| "truthy (JBool b) = b"

record formEntry =
  name :: string
  tableName :: string
  ref :: ref
  installed :: bool
  download :: jsflag

text \<open>An element \<open>{n: name, t: tableName, r: ref}\<close> of the server's form catalog.\<close>

record formData =
  n :: string
  t :: string
  r :: ref

text \<open>The response object handed to an error callback by the server collaborator.\<close>

datatype response = Response (http_status: nat)

text \<open>
  Job objects are shared between the queue and the callbacks of their requests, so they
  live in a store and the queue holds their addresses. Promises created by
  \<open>$q.defer()\<close> are numbered likewise; one that is not settled yet knows how many
  callbacks wait for its value.
\<close>

type_synonym addr = nat

datatype promise = Unsettled nat | Resolved "formEntry list" | Rejected response

text \<open>
  What the event loop still has to deliver: the answer to an \<open>emServer.getForm\<close> call
  of a job, the answer to an \<open>emServer.formList\<close> call made for a deferred, the answer to
  \<open>emDB.tables()\<close> (with the catalog its callback closes over), the queued
  \<open>then\<close>-callback of a resolved promise, and a \<open>$timeout\<close> of \<open>updateSyncStatus\<close>.
\<close>

datatype task =
    NetGetForm addr
  | NetFormList nat
  | DbTables nat "formData list"
  | Callback nat
  | Timer

text \<open>
  The calls made so far, in order: every entry into \<open>updateSyncStatus\<close> and every call
  to a collaborator (\<open>emServer.getForm\<close>, \<open>emServer.formList\<close>, \<open>emDB.tables\<close>,
  \<open>emServer.httpError\<close>, \<open>$timeout\<close>).
\<close>

datatype call =
    CallUpdateSyncStatus
  | CallGetForm string ref
  | CallFormList
  | CallTables
  | CallHttpError response
  | CallTimeout nat

record state =
  syncJobs :: "addr list"
  statusUpdate :: bool
  syncInProgress :: bool
  heap :: "addr \<rightharpoonup> syncJob"
  next_addr :: addr
  deferreds :: "nat \<rightharpoonup> promise"
  next_deferred :: nat
  tasks :: "task list"
  calls :: "call list"

definition init :: state where
  "init = \<lparr> syncJobs = [], statusUpdate = False, syncInProgress = False,
            heap = Map.empty, next_addr = 0,
            deferreds = Map.empty, next_deferred = 0,
            tasks = [], calls = [] \<rparr>"

subsection \<open>Status aggregation\<close>

text \<open>The filter predicate \<open>job.status == 'pending' || job.status == 'active'\<close>.\<close>

definition is_open :: "state \<Rightarrow> addr \<Rightarrow> bool" where
  "is_open s a =
     (case heap s a of
        None \<Rightarrow> False
      | Some job \<Rightarrow> status job = Pending \<or> status job = Active)"

definition updateSyncStatus :: "state \<Rightarrow> state" where
  "updateSyncStatus s =
     (let s0 = s\<lparr> calls := calls s @ [CallUpdateSyncStatus] \<rparr>
      in if statusUpdate s0 then
           s0\<lparr> tasks := tasks s0 @ [Timer], calls := calls s0 @ [CallTimeout 100] \<rparr>
         else
           (let s1 = s0\<lparr> statusUpdate := True \<rparr>;
                openJobs = filter (is_open s1) (syncJobs s1);
                s2 = s1\<lparr> syncJobs := openJobs \<rparr>;
                s3 = (if length openJobs > 0
                      then s2\<lparr> syncInProgress := True \<rparr>
                      else s2\<lparr> syncInProgress := False \<rparr>)
            in s3\<lparr> statusUpdate := False \<rparr>))"

subsection \<open>Jobs\<close>

text \<open>The constructor \<open>new SyncJob(type, mode, tableName, ref)\<close>.\<close>

definition SyncJob :: "job_type \<Rightarrow> job_mode \<Rightarrow> string \<Rightarrow> ref \<Rightarrow> syncJob" where
  "SyncJob ty md tn rf =
     \<lparr> type = ty, mode = md, job_tableName = tn, job_ref = rf, status = Pending \<rparr>"

definition set_status :: "addr \<Rightarrow> job_status \<Rightarrow> state \<Rightarrow> state" where
  "set_status a st s =
     (case heap s a of
        None \<Rightarrow> s
      | Some job \<Rightarrow> s\<lparr> heap := (heap s)(a \<mapsto> job\<lparr> status := st \<rparr>) \<rparr>)"

text \<open>
  \<open>SyncJob.prototype.run\<close> for the job at address \<open>a\<close>. The request is handed to the
  server collaborator; its callbacks run later, from the event loop.
\<close>

definition run :: "addr \<Rightarrow> state \<Rightarrow> state" where
  "run a s =
     (case heap s a of
        None \<Rightarrow> s
      | Some self \<Rightarrow>
          if status self \<noteq> Pending then s
          else
            (let s1 = set_status a Active s
             in s1\<lparr> tasks := tasks s1 @ [NetGetForm a],
                    calls := calls s1 @ [CallGetForm (job_tableName self) (job_ref self)] \<rparr>))"

text \<open>The two callbacks passed to \<open>emServer.getForm\<close>.\<close>

definition getForm_success :: "addr \<Rightarrow> state \<Rightarrow> state" where
  "getForm_success a s = updateSyncStatus (set_status a Success s)"

definition getForm_error :: "addr \<Rightarrow> state \<Rightarrow> state" where
  "getForm_error a s = updateSyncStatus (set_status a Error s)"

subsection \<open>The form list\<close>

text \<open>
  \<open>updateFormList\<close> builds its dictionary in a plain object, \<open>var items = {}\<close>. Such an
  object sees, besides its own properties, those of its prototype. The prototype is
  \<open>Object.prototype\<close>, whose property names are listed below, until an assignment to the
  key \<open>'__proto__'\<close> (an accessor of \<open>Object.prototype\<close>) replaces it by the assigned
  object; every other assignment creates an own property.
\<close>

definition object_prototype_keys :: "string list" where
  "object_prototype_keys =
     [''constructor'', ''hasOwnProperty'', ''isPrototypeOf'', ''propertyIsEnumerable'',
      ''toLocaleString'', ''toString'', ''valueOf'', ''__proto__'',
      ''__defineGetter__'', ''__defineSetter__'', ''__lookupGetter__'', ''__lookupSetter__'']"

definition formEntry_keys :: "string list" where
  "formEntry_keys = [''name'', ''tableName'', ''ref'', ''installed'', ''download'']"

record items =
  own :: "string \<rightharpoonup> formEntry"
  proto :: "formEntry option"

definition empty_items :: items where
  "empty_items = \<lparr> own = Map.empty, proto = None \<rparr>"

text \<open>The assignment \<open>items[item.tableName] = item\<close>.\<close>

definition items_set :: "formEntry \<Rightarrow> items \<Rightarrow> items" where
  "items_set item d =
     (if tableName item = ''__proto__''
      then d\<lparr> proto := Some item \<rparr>
      else d\<lparr> own := (own d)(tableName item \<mapsto> item) \<rparr>)"

text \<open>
  What \<open>items[tableName]\<close> evaluates to: \<open>undefined\<close>, a form list entry, or some other
  value that is not \<open>undefined\<close> (a built-in function, \<open>Object.prototype\<close>, or the value
  of a field of the entry that became the prototype). None of the latter has a
  \<open>download\<close> property.
\<close>

datatype looked_up = NotFound | AnEntry formEntry | Other

definition items_get :: "string \<Rightarrow> items \<Rightarrow> looked_up" where
  "items_get k d =
     (if k = ''__proto__'' then
        (case proto d of None \<Rightarrow> Other | Some item \<Rightarrow> AnEntry item)
      else
        (case own d k of
           Some item \<Rightarrow> AnEntry item
         | None \<Rightarrow>
             (case proto d of
                Some item \<Rightarrow>
                  if k = ''download'' \<and> download item = JUndefined then NotFound
                  else if k \<in> set formEntry_keys then Other
                  else if k \<in> set object_prototype_keys then Other
                  else NotFound
              | None \<Rightarrow>
                  if k \<in> set object_prototype_keys then Other else NotFound)))"

definition updateFormList ::
  "formEntry list \<Rightarrow> string list \<Rightarrow> formData list \<Rightarrow> formEntry list" where
  "updateFormList currentList tables data =
     (let items = foldl (\<lambda>d item. items_set item d) empty_items currentList
      in map (\<lambda>formData.
           let tn = t formData;
               inst = (if tn \<notin> set tables then False else True);
               item = items_get tn items;
               dl = (case item of
                       NotFound \<Rightarrow> JBool True
                     | AnEntry e \<Rightarrow> download e
                     | Other \<Rightarrow> JUndefined)
           in \<lparr> name = n formData, tableName = tn, ref = r formData,
                installed = inst, download = dl \<rparr>) data)"

subsection \<open>Promises\<close>

text \<open>
  The promise library \<open>$q\<close> is a collaborator. A settled promise stays as it is; a
  callback given to \<open>then\<close> runs later, from the event loop, once the promise is
  resolved. The only \<open>then\<close> on a form list promise passes a success callback alone, so a
  rejection runs nothing.
\<close>

definition q_defer :: "state \<Rightarrow> nat \<times> state" where
  "q_defer s =
     (next_deferred s,
      s\<lparr> deferreds := (deferreds s)(next_deferred s \<mapsto> Unsettled 0),
         next_deferred := Suc (next_deferred s) \<rparr>)"

definition resolve :: "nat \<Rightarrow> formEntry list \<Rightarrow> state \<Rightarrow> state" where
  "resolve d v s =
     (case deferreds s d of
        Some (Unsettled waiting) \<Rightarrow>
          s\<lparr> deferreds := (deferreds s)(d \<mapsto> Resolved v),
             tasks := tasks s @ replicate waiting (Callback d) \<rparr>
      | _ \<Rightarrow> s)"

definition reject :: "nat \<Rightarrow> response \<Rightarrow> state \<Rightarrow> state" where
  "reject d resp s =
     (case deferreds s d of
        Some (Unsettled waiting) \<Rightarrow> s\<lparr> deferreds := (deferreds s)(d \<mapsto> Rejected resp) \<rparr>
      | _ \<Rightarrow> s)"

definition then_success :: "nat \<Rightarrow> state \<Rightarrow> state" where
  "then_success d s =
     (case deferreds s d of
        Some (Unsettled waiting) \<Rightarrow>
          s\<lparr> deferreds := (deferreds s)(d \<mapsto> Unsettled (Suc waiting)) \<rparr>
      | Some (Resolved v) \<Rightarrow> s\<lparr> tasks := tasks s @ [Callback d] \<rparr>
      | _ \<Rightarrow> s)"

subsection \<open>Resolving the form list\<close>

text \<open>
  \<open>getFormList\<close>; the argument is \<open>None\<close> when the caller passes no list. The test
  \<open>formList && formList.length\<close> holds for a non-empty array only.
\<close>

definition getFormList :: "formEntry list option \<Rightarrow> state \<Rightarrow> nat \<times> state" where
  "getFormList formList s =
     (let (deferred, s1) = q_defer s
      in case formList of
           Some (form # forms) \<Rightarrow> (deferred, resolve deferred (form # forms) s1)
         | _ \<Rightarrow>
             (deferred,
              s1\<lparr> tasks := tasks s1 @ [NetFormList deferred],
                  calls := calls s1 @ [CallFormList] \<rparr>))"

text \<open>The success callback of \<open>emServer.formList\<close> asks the database for its tables.\<close>

definition formList_success :: "nat \<Rightarrow> formData list \<Rightarrow> state \<Rightarrow> state" where
  "formList_success deferred data s =
     s\<lparr> tasks := tasks s @ [DbTables deferred data], calls := calls s @ [CallTables] \<rparr>"

definition tables_then :: "nat \<Rightarrow> formData list \<Rightarrow> string list \<Rightarrow> state \<Rightarrow> state" where
  "tables_then deferred data tableNames s =
     resolve deferred (updateFormList [] tableNames data) s"

text \<open>The error callback of \<open>emServer.formList\<close>.\<close>

definition formList_error :: "nat \<Rightarrow> response \<Rightarrow> state \<Rightarrow> state" where
  "formList_error deferred resp s =
     (let s1 = updateSyncStatus s;
          s2 = s1\<lparr> calls := calls s1 @ [CallHttpError resp] \<rparr>
      in reject deferred resp s2)"

subsection \<open>Generating and running jobs\<close>

text \<open>
  A job made by \<open>new SyncJob(...)\<close> gets the next free address, and
  \<open>syncJobs.push(job)\<close> appends that address to the queue.
\<close>

definition push_job :: "syncJob \<Rightarrow> state \<Rightarrow> state" where
  "push_job job s =
     s\<lparr> heap := (heap s)(next_addr s \<mapsto> job),
        next_addr := Suc (next_addr s),
        syncJobs := syncJobs s @ [next_addr s] \<rparr>"

definition generateSyncJobs :: "formEntry list \<Rightarrow> state \<Rightarrow> nat \<times> state" where
  "generateSyncJobs formList s =
     foldl (\<lambda>(jobsScheduled, s') form.
              if truthy (download form)
              then (jobsScheduled + 1,
                    push_job (SyncJob Form Pull (tableName form) (ref form)) s')
              else (jobsScheduled, s'))
           (0, s) formList"

text \<open>
  The loop of \<open>synchronize\<close> over the queue:
  \<open>syncJobs.forEach(function(job) { if (job.status == 'pending') { job.run(); } })\<close>.
\<close>

definition is_pending :: "state \<Rightarrow> addr \<Rightarrow> bool" where
  "is_pending s a = (case heap s a of None \<Rightarrow> False | Some job \<Rightarrow> status job = Pending)"

definition run_pending :: "addr list \<Rightarrow> state \<Rightarrow> state" where
  "run_pending jobs s = foldl (\<lambda>s' job. if is_pending s' job then run job s' else s') s jobs"

text \<open>
  \<open>synchronize\<close>. Its recursive call sits in the \<open>then\<close>-callback, which the event loop
  runs once the form list promise is resolved.
\<close>

definition synchronize :: "formEntry list option \<Rightarrow> state \<Rightarrow> state" where
  "synchronize forms s =
     (let s1 = s\<lparr> syncInProgress := True \<rparr>
      in if length (syncJobs s1) \<noteq> 0
         then run_pending (syncJobs s1) s1
         else (let (promise, s2) = getFormList forms s1
               in then_success promise s2))"

text \<open>The callback \<open>synchronize\<close> passes to \<open>then\<close>.\<close>

definition synchronize_then :: "formEntry list \<Rightarrow> state \<Rightarrow> state" where
  "synchronize_then formList s =
     (let (jobsScheduled, s1) = generateSyncJobs formList s
      in if jobsScheduled \<noteq> 0
         then synchronize (Some formList) s1
         else updateSyncStatus s1)"

subsection \<open>The event loop\<close>

text \<open>
  One step is one run-to-completion turn: a call of the service's \<open>synchronize\<close> by the
  application, or the delivery of something the loop has pending. A request is answered
  once, by one of its two callbacks.
\<close>

datatype event =
    ApiSynchronize "formEntry list option"
  | GetFormOk addr
  | GetFormFailed addr
  | FormListOk nat "formData list"
  | FormListFailed nat response
  | TablesOk nat "formData list" "string list"
  | ThenRun nat
  | TimerFire

definition take_task :: "task \<Rightarrow> state \<Rightarrow> state" where
  "take_task x s = s\<lparr> tasks := remove1 x (tasks s) \<rparr>"

fun step :: "event \<Rightarrow> state \<Rightarrow> state option" where
  "step (ApiSynchronize forms) s = Some (synchronize forms s)"
| "step (GetFormOk a) s =
     (if NetGetForm a \<in> set (tasks s)
      then Some (getForm_success a (take_task (NetGetForm a) s)) else None)"
| "step (GetFormFailed a) s =
     (if NetGetForm a \<in> set (tasks s)
      then Some (getForm_error a (take_task (NetGetForm a) s)) else None)"
| "step (FormListOk d data) s =
     (if NetFormList d \<in> set (tasks s)
      then Some (formList_success d data (take_task (NetFormList d) s)) else None)"
| "step (FormListFailed d resp) s =
     (if NetFormList d \<in> set (tasks s)
      then Some (formList_error d resp (take_task (NetFormList d) s)) else None)"
| "step (TablesOk d data tableNames) s =
     (if DbTables d data \<in> set (tasks s)
      then Some (tables_then d data tableNames (take_task (DbTables d data) s)) else None)"
| "step (ThenRun d) s =
     (if Callback d \<in> set (tasks s)
      then (case deferreds s d of
              Some (Resolved formList) \<Rightarrow>
                Some (synchronize_then formList (take_task (Callback d) s))
            | _ \<Rightarrow> None)
      else None)"
| "step TimerFire s =
     (if Timer \<in> set (tasks s)
      then Some (updateSyncStatus (take_task Timer s)) else None)"

fun exec :: "event list \<Rightarrow> state \<Rightarrow> state option" where
  "exec [] s = Some s"
| "exec (e # es) s = (case step e s of None \<Rightarrow> None | Some s' \<Rightarrow> exec es s')"

inductive reachable :: "state \<Rightarrow> bool" where
  reachable_init: "reachable init"
| reachable_step: "reachable s \<Longrightarrow> step e s = Some s' \<Longrightarrow> reachable s'"

section \<open>The validation rules (emValidate)\<close>

text \<open>
  The values found in a rule's options are opaque here. What the rules do with them is
  coerce them: to a boolean (\<open>!v\<close>, \<open>v && w\<close>), to a string (\<open>'' + v\<close>) and to a number
  (\<open>isNaN(v - 0)\<close>). The three coercions are parameters of the model.
\<close>

record 'v coercions =
  is_truthy :: "'v \<Rightarrow> bool"
  to_string :: "'v \<Rightarrow> string"
  is_NaN :: "'v \<Rightarrow> bool"

text \<open>
  The value of a local variable of a rule: \<open>undefined\<close>, a string the rule has built, or
  a value taken from the options.
\<close>

datatype 'v jsvalue = Undefined | Str string | Given 'v

fun truthy_value :: "'v coercions \<Rightarrow> 'v jsvalue \<Rightarrow> bool" where
  "truthy_value C Undefined = False"
| "truthy_value C (Str x) = (x \<noteq> [])"
| "truthy_value C (Given v) = is_truthy C v"

fun string_of :: "'v coercions \<Rightarrow> 'v jsvalue \<Rightarrow> string" where
  "string_of C Undefined = ''undefined''"
| "string_of C (Str x) = x"
| "string_of C (Given v) = to_string C v"

fun NaN_value :: "'v coercions \<Rightarrow> 'v jsvalue \<Rightarrow> bool" where
  "NaN_value C Undefined = True"
| "NaN_value C (Str x) = True"
| "NaN_value C (Given v) = is_NaN C v"

text \<open>The options object; a property that is absent reads as \<open>undefined\<close>.\<close>

record 'v options =
  opt_error :: "'v option"
  opt_min :: "'v option"
  opt_max :: "'v option"

definition empty_options :: "'v options" where
  "empty_options = \<lparr> opt_error = None, opt_min = None, opt_max = None \<rparr>"

definition property :: "'v option \<Rightarrow> 'v jsvalue" where
  "property p = (case p of None \<Rightarrow> Undefined | Some v \<Rightarrow> Given v)"

text \<open>The object a rule returns; \<open>directives\<close> lists its properties in insertion order.\<close>

record 'v rule =
  directives :: "(string \<times> string) list"
  errors :: "string list"
  message :: "'v jsvalue"

definition isNotEmpty :: "'v coercions \<Rightarrow> 'v options \<Rightarrow> 'v rule" where
  "isNotEmpty C options =
     (let errorMsg = property (opt_error options);
          errorMsg = (if \<not> truthy_value C errorMsg then Str ''Enter a value'' else errorMsg)
      in \<lparr> directives = [(''ng-required'', ''true'')],
           errors = [''required''],
           message = errorMsg \<rparr>)"

text \<open>
  \<open>min = directives.min = '' + min\<close>, done when
  \<open>min !== undefined && !isNaN(min - 0)\<close>: the variable and the directive both get the
  string.
\<close>

definition bound ::
  "'v coercions \<Rightarrow> string \<Rightarrow> 'v jsvalue \<Rightarrow> (string \<times> string) list
     \<Rightarrow> 'v jsvalue \<times> (string \<times> string) list" where
  "bound C key v dirs =
     (if v \<noteq> Undefined \<and> \<not> NaN_value C v
      then (Str (string_of C v), dirs @ [(key, string_of C v)])
      else (v, dirs))"

definition isIntInRange :: "'v coercions \<Rightarrow> 'v options \<Rightarrow> 'v rule" where
  "isIntInRange C options =
     (let dirs = [(''ng-pattern'', ''/^[-+]?[0-9]*$/'')];
          errs = [''number'', ''pattern''];
          (min_v, dirs) = bound C ''min'' (property (opt_min options)) dirs;
          (max_v, dirs) = bound C ''max'' (property (opt_max options)) dirs;
          errorMsg = property (opt_error options);
          (errorMsg, errs) =
            (if \<not> truthy_value C errorMsg then
               if truthy_value C min_v \<and> truthy_value C max_v then
                 (Str (''Enter an integer between '' @ string_of C min_v @ '' and ''
                         @ string_of C max_v),
                  errs @ [''min'', ''max''])
               else if truthy_value C min_v then
                 (Str (''Enter an integer >= '' @ string_of C min_v), errs @ [''min''])
               else if truthy_value C max_v then
                 (Str (''Enter an integer <= '' @ string_of C max_v), errs @ [''max''])
               else (Str ''Enter an integer'', errs)
             else (errorMsg, errs))
      in \<lparr> directives = dirs, errors = errs, message = errorMsg \<rparr>)"

definition isFloatInRange :: "'v coercions \<Rightarrow> 'v options \<Rightarrow> 'v rule" where
  "isFloatInRange C options =
     (let dirs = [];
          errs = [''number''];
          (min_v, dirs) = bound C ''min'' (property (opt_min options)) dirs;
          (max_v, dirs) = bound C ''max'' (property (opt_max options)) dirs;
          errorMsg = property (opt_error options);
          (errorMsg, errs) =
            (if \<not> truthy_value C errorMsg then
               if truthy_value C min_v \<and> truthy_value C max_v then
                 (Str (''Enter a number between '' @ string_of C min_v @ '' and ''
                         @ string_of C max_v),
                  errs @ [''min'', ''max''])
               else if truthy_value C min_v then
                 (Str (''Enter a number >= '' @ string_of C min_v), errs @ [''min''])
               else if truthy_value C max_v then
                 (Str (''Enter a number <= '' @ string_of C max_v), errs @ [''max''])
               else (Str ''Enter a number'', errs)
             else (errorMsg, errs))
      in \<lparr> directives = dirs, errors = errs, message = errorMsg \<rparr>)"

definition isJson :: "'v coercions \<Rightarrow> 'v options \<Rightarrow> 'v rule" where
  "isJson C options =
     (let errorMsg = property (opt_error options);
          errorMsg = (if \<not> truthy_value C errorMsg
                      then Str ''Enter a valid JSON expression'' else errorMsg)
      in \<lparr> directives = [(''is-json'', [])],
           errors = [''json'', ''parse''],
           message = errorMsg \<rparr>)"

text \<open>
  \<open>rules[name]\<close>: \<open>rules\<close> is an object literal with four own properties, and its
  prototype is \<open>Object.prototype\<close>, so the lookup also finds the inherited properties.
\<close>

datatype rule_entry =
    RuleIsNotEmpty | RuleIsIntInRange | RuleIsFloatInRange | RuleIsJson
  | Inherited string
  | NoRule

definition rules_get :: "string \<Rightarrow> rule_entry" where
  "rules_get rule_name =
     (if rule_name = ''isNotEmpty'' then RuleIsNotEmpty
      else if rule_name = ''isIntInRange'' then RuleIsIntInRange
      else if rule_name = ''isFloatInRange'' then RuleIsFloatInRange
      else if rule_name = ''isJson'' then RuleIsJson
      else if rule_name \<in> set object_prototype_keys then Inherited rule_name
      else NoRule)"

text \<open>What \<open>encode\<close> does: it returns a value or throws a \<open>TypeError\<close>.\<close>

datatype 'v returned =
    Null
  | RuleObject "'v rule"
  | OptionsObject "'v options"
  | StringValue string

datatype 'v outcome = Return "'v returned" | TypeError

text \<open>
  An inherited property called as \<open>rule(options)\<close>, that is with \<open>this\<close> undefined and an
  object as argument. \<open>Object(options)\<close> returns its argument,
  \<open>Object.prototype.toString\<close> answers for \<open>undefined\<close>, the other functions fail when
  they convert \<open>this\<close> to an object, and \<open>rules['__proto__']\<close> is \<open>Object.prototype\<close>
  itself, which is not a function.
\<close>

definition call_inherited :: "string \<Rightarrow> 'v options \<Rightarrow> 'v outcome" where
  "call_inherited key options =
     (if key = ''constructor'' then Return (OptionsObject options)
      else if key = ''toString'' then Return (StringValue ''[object Undefined]'')
      else TypeError)"

text \<open>\<open>if (!options) { options = {}; }\<close>\<close>

definition given_options :: "'v options option \<Rightarrow> 'v options" where
  "given_options options = (case options of None \<Rightarrow> empty_options | Some opts \<Rightarrow> opts)"

text \<open>
  \<open>encode\<close>; the options are \<open>None\<close> when the caller passes none (or \<open>null\<close>, as
  \<open>getDirectives\<close> does for rules without options).
\<close>

definition encode :: "'v coercions \<Rightarrow> string \<Rightarrow> 'v options option \<Rightarrow> 'v outcome" where
  "encode C rule_name options =
     (case rules_get rule_name of
        NoRule \<Rightarrow> Return Null
      | RuleIsNotEmpty \<Rightarrow> Return (RuleObject (isNotEmpty C (given_options options)))
      | RuleIsIntInRange \<Rightarrow> Return (RuleObject (isIntInRange C (given_options options)))
      | RuleIsFloatInRange \<Rightarrow> Return (RuleObject (isFloatInRange C (given_options options)))
      | RuleIsJson \<Rightarrow> Return (RuleObject (isJson C (given_options options)))
      | Inherited key \<Rightarrow> call_inherited key (given_options options))"

section \<open>Notions used in the statements\<close>

text \<open>The terminal statuses of a job.\<close>

definition terminal :: "job_status \<Rightarrow> bool" where
  "terminal st = (st = Success \<or> st = Error)"

text \<open>The entries of a form list that \<open>generateSyncJobs\<close> turns into jobs.\<close>

definition selected :: "formEntry list \<Rightarrow> formEntry list" where
  "selected formList = filter (\<lambda>form. truthy (download form)) formList"

definition job_for :: "formEntry \<Rightarrow> syncJob" where
  "job_for form = SyncJob Form Pull (tableName form) (ref form)"

fun push_jobs :: "syncJob list \<Rightarrow> state \<Rightarrow> state" where
  "push_jobs [] s = s"
| "push_jobs (job # jobs) s = push_jobs jobs (push_job job s)"

text \<open>The dictionary \<open>updateFormList\<close> builds, and the \<open>download\<close> value it derives from it.\<close>

definition build_items :: "formEntry list \<Rightarrow> items" where
  "build_items currentList = foldl (\<lambda>d item. items_set item d) empty_items currentList"

definition merged_download :: "formEntry list \<Rightarrow> string \<Rightarrow> jsflag" where
  "merged_download currentList k =
     (case items_get k (build_items currentList) of
        NotFound \<Rightarrow> JBool True
      | AnEntry e \<Rightarrow> download e
      | Other \<Rightarrow> JUndefined)"

text \<open>The last entry of a list with a given table name.\<close>

definition last_with :: "string \<Rightarrow> formEntry list \<Rightarrow> formEntry option" where
  "last_with k currentList = find (\<lambda>item. tableName item = k) (rev currentList)"

subsection \<open>Invariants of the event loop\<close>

definition is_active :: "state \<Rightarrow> addr \<Rightarrow> bool" where
  "is_active s a = (case heap s a of None \<Rightarrow> False | Some job \<Rightarrow> status job = Active)"

text \<open>The jobs whose \<open>getForm\<close> request is still unanswered.\<close>

fun fetch_of :: "task \<Rightarrow> addr list" where
  "fetch_of (NetGetForm a) = [a]"
| "fetch_of _ = []"

definition fetching :: "state \<Rightarrow> addr list" where
  "fetching s = concat (map fetch_of (tasks s))"

text \<open>
  What holds of the jobs at every point of a turn: the busy flag is clear, a job with an
  unanswered request is active and has one such request, a queued job is pending or
  has an unanswered request, no job is queued twice, and addresses are allocated in
  order. Between two turns no queued job is pending any more.
\<close>

definition jobs_wf :: "state \<Rightarrow> bool" where
  "jobs_wf s =
     (\<not> statusUpdate s \<and>
      (\<forall>a \<in> set (fetching s). is_active s a) \<and>
      distinct (fetching s) \<and>
      (\<forall>a \<in> set (syncJobs s). is_pending s a \<or> a \<in> set (fetching s)) \<and>
      distinct (syncJobs s) \<and>
      (\<forall>a. heap s a \<noteq> None \<longrightarrow> a < next_addr s))"

definition jobs_inv :: "state \<Rightarrow> bool" where
  "jobs_inv s = (jobs_wf s \<and> set (syncJobs s) \<subseteq> set (fetching s))"

text \<open>
  The promises that a pending task will settle: the one of a catalog request, and the
  one of the database query that follows it. Each is still unsettled and has one such
  task; promise numbers are allocated in order.
\<close>

fun settle_of :: "task \<Rightarrow> nat list" where
  "settle_of (NetFormList d) = [d]"
| "settle_of (DbTables d data) = [d]"
| "settle_of _ = []"

definition settling :: "state \<Rightarrow> nat list" where
  "settling s = concat (map settle_of (tasks s))"

definition unsettled :: "state \<Rightarrow> nat \<Rightarrow> bool" where
  "unsettled s d = (\<exists>k. deferreds s d = Some (Unsettled k))"

definition promises_inv :: "state \<Rightarrow> bool" where
  "promises_inv s =
     ((\<forall>d \<in> set (settling s). unsettled s d) \<and>
      distinct (settling s) \<and>
      (\<forall>d. deferreds s d \<noteq> None \<longrightarrow> d < next_deferred s))"

subsection \<open>The life of a job\<close>

text \<open>
  One turn of the event loop leaves a status as it is or moves it one step along
  pending, active, then success or error; the other fields of a job never change.
\<close>

definition advance :: "job_status \<Rightarrow> job_status \<Rightarrow> bool" where
  "advance st st' =
     (st' = st \<or> (st = Pending \<and> st' = Active) \<or>
      (st = Active \<and> (st' = Success \<or> st' = Error)))"

definition job_step :: "syncJob \<Rightarrow> syncJob \<Rightarrow> bool" where
  "job_step job job' = (job' = job\<lparr> status := status job' \<rparr> \<and> advance (status job) (status job'))"

text \<open>Over several turns a status stays or moves forward along the same path.\<close>

definition later :: "job_status \<Rightarrow> job_status \<Rightarrow> bool" where
  "later st st' =
     (st' = st \<or> st = Pending \<or> (st = Active \<and> (st' = Success \<or> st' = Error)))"

subsection \<open>What a run over the queue does\<close>

text \<open>The elements of a list at their first occurrence, in order.\<close>

definition first_occurrences :: "'a list \<Rightarrow> 'a list" where
  "first_occurrences xs = rev (remdups (rev xs))"

text \<open>The \<open>emServer.getForm\<close> calls for a list of jobs.\<close>

definition getForm_calls :: "state \<Rightarrow> addr list \<Rightarrow> call list" where
  "getForm_calls s jobs =
     concat (map (\<lambda>a. case heap s a of
                         None \<Rightarrow> []
                       | Some job \<Rightarrow> [CallGetForm (job_tableName job) (job_ref job)]) jobs)"

text \<open>The events that answer the request of a job.\<close>

definition job_answer :: "event \<Rightarrow> bool" where
  "job_answer e = (case e of GetFormOk a \<Rightarrow> True | GetFormFailed a \<Rightarrow> True | _ \<Rightarrow> False)"

subsection \<open>Example data\<close>

definition example_ref :: ref where
  "example_ref = Ref ''default'' ''index'' []"

definition job_with :: "job_status \<Rightarrow> syncJob" where
  "job_with st = (SyncJob Form Pull ''incident'' example_ref)\<lparr> status := st \<rparr>"

definition mixed_queue :: state where
  "mixed_queue =
     init\<lparr> syncJobs := [0, 1, 2],
           heap := [0 \<mapsto> job_with Success, 1 \<mapsto> job_with Active, 2 \<mapsto> job_with Error],
           next_addr := 3 \<rparr>"

text \<open>A queue with a job in each of the four statuses.\<close>

definition open_queue :: state where
  "open_queue =
     init\<lparr> syncJobs := [0, 1, 2, 3],
           heap := [0 \<mapsto> job_with Success, 1 \<mapsto> job_with Active, 2 \<mapsto> job_with Error,
                    3 \<mapsto> job_with Pending],
           next_addr := 4 \<rparr>"

definition finished_queue :: state where
  "finished_queue =
     init\<lparr> syncJobs := [0, 1],
           heap := [0 \<mapsto> job_with Success, 1 \<mapsto> job_with Error],
           next_addr := 2 \<rparr>"

definition entry_with :: "string \<Rightarrow> jsflag \<Rightarrow> formEntry" where
  "entry_with tn dl =
     \<lparr> name = tn, tableName = tn, ref = example_ref, installed = False, download = dl \<rparr>"

definition catalog_form :: "string \<Rightarrow> formData" where
  "catalog_form tn = \<lparr> n = tn, t = tn, r = example_ref \<rparr>"

definition three_forms :: "formEntry list" where
  "three_forms = [entry_with ''a'' (JBool True), entry_with ''b'' (JBool False),
                  entry_with ''c'' (JBool True)]"

text \<open>Two form list entries, and a call of the driver with the first.\<close>

definition entry_a :: formEntry where "entry_a = entry_with ''a'' (JBool True)"

definition entry_b :: formEntry where "entry_b = entry_with ''b'' (JBool False)"

definition first_call :: state where
  "first_call = synchronize (Some [entry_a]) init"

text \<open>
  A queue of two pending jobs; one form driven from the call to the answer of its
  request; a catalog request that fails, with the queue empty and with a job under
  way; and a catalog request answered with an empty catalog while a job is under way.
\<close>

definition pending_pair :: state where
  "pending_pair = snd (generateSyncJobs three_forms init)"

definition fetching_one :: state where
  "fetching_one = synchronize_then [entry_a] (take_task (Callback 0) first_call)"

definition fetched_one :: state where
  "fetched_one = getForm_success 0 (take_task (NetGetForm 0) fetching_one)"

definition waiting :: state where
  "waiting = synchronize None init"

definition waiting_busy :: state where
  "waiting_busy =
     synchronize_then [entry_a] (take_task (Callback 1) (synchronize (Some [entry_a]) waiting))"

definition server_error :: response where
  "server_error = Response 500"

definition failed_busy :: state where
  "failed_busy = formList_error 0 server_error (take_task (NetFormList 0) waiting_busy)"

definition failed_done :: state where
  "failed_done = getForm_success 0 (take_task (NetGetForm 0) failed_busy)"

definition empty_catalog :: state where
  "empty_catalog =
     tables_then 0 [] []
       (take_task (DbTables 0 []) (formList_success 0 [] (take_task (NetFormList 0) waiting_busy)))"

definition empty_then :: state where
  "empty_then = synchronize_then [] (take_task (Callback 0) empty_catalog)"

text \<open>A call of the driver with a list of one form that is not to be downloaded, and a
  catalog of one form.\<close>

definition declined_call :: state where
  "declined_call = synchronize (Some [entry_b]) init"

definition incident_catalog :: "formData list" where
  "incident_catalog = [catalog_form ''incident'']"

section \<open>Properties of the synchronization service\<close>

subsection \<open>Status aggregation\<close>

lemma is_open_frame [simp]:
  "is_open (s\<lparr> calls := cs \<rparr>) = is_open s"
  "is_open (s\<lparr> tasks := ts \<rparr>) = is_open s"
  "is_open (s\<lparr> statusUpdate := b \<rparr>) = is_open s"
  "is_open (s\<lparr> syncInProgress := b \<rparr>) = is_open s"
  "is_open (s\<lparr> syncJobs := q \<rparr>) = is_open s"
  "is_open (s\<lparr> deferreds := ds \<rparr>) = is_open s"
  "is_open (s\<lparr> next_deferred := k \<rparr>) = is_open s"
  by (simp_all add: is_open_def fun_eq_iff)

lemma updateSyncStatus_idle:
  "\<not> statusUpdate s \<Longrightarrow>
   updateSyncStatus s =
     s\<lparr> syncJobs := filter (is_open s) (syncJobs s),
        syncInProgress := (filter (is_open s) (syncJobs s) \<noteq> []),
        calls := calls s @ [CallUpdateSyncStatus] \<rparr>"
  by (simp add: updateSyncStatus_def Let_def)

subsection \<open>Job generation\<close>

lemma generate_foldl:
  "foldl (\<lambda>(jobsScheduled, s') form.
              if truthy (download form)
              then (jobsScheduled + 1,
                    push_job (SyncJob Form Pull (tableName form) (ref form)) s')
              else (jobsScheduled, s'))
         (k, s) formList
   = (k + length (selected formList), push_jobs (map job_for (selected formList)) s)"
  by (induction formList arbitrary: k s) (simp_all add: selected_def job_for_def)

lemma generateSyncJobs_eq:
  "generateSyncJobs formList s =
     (length (selected formList), push_jobs (map job_for (selected formList)) s)"
  by (simp add: generateSyncJobs_def generate_foldl)

lemma push_jobs_syncJobs:
  "syncJobs (push_jobs jobs s) = syncJobs s @ [next_addr s ..< next_addr s + length jobs]"
  by (induction jobs arbitrary: s) (simp_all add: push_job_def upt_rec)

lemma push_jobs_next_addr:
  "next_addr (push_jobs jobs s) = next_addr s + length jobs"
  by (induction jobs arbitrary: s) (simp_all add: push_job_def)

lemma push_jobs_heap_old:
  "a < next_addr s \<Longrightarrow> heap (push_jobs jobs s) a = heap s a"
  by (induction jobs arbitrary: s) (simp_all add: push_job_def)

lemma push_jobs_heap_beyond:
  "next_addr s + length jobs \<le> a \<Longrightarrow> heap (push_jobs jobs s) a = heap s a"
  by (induction jobs arbitrary: s) (simp_all add: push_job_def)

lemma push_jobs_heap_new:
  "i < length jobs \<Longrightarrow> heap (push_jobs jobs s) (next_addr s + i) = Some (jobs ! i)"
proof (induction jobs arbitrary: s i)
  case Nil
  then show ?case by simp
next
  case (Cons job jobs)
  show ?case
  proof (cases i)
    case 0
    then show ?thesis by (simp add: push_jobs_heap_old push_job_def)
  next
    case (Suc j)
    with Cons.prems have "j < length jobs" by simp
    from Cons.IH[OF this, of "push_job job s"] Suc show ?thesis
      by (simp add: push_job_def)
  qed
qed

lemma push_jobs_frame:
  "statusUpdate (push_jobs jobs s) = statusUpdate s"
  "syncInProgress (push_jobs jobs s) = syncInProgress s"
  "deferreds (push_jobs jobs s) = deferreds s"
  "next_deferred (push_jobs jobs s) = next_deferred s"
  "tasks (push_jobs jobs s) = tasks s"
  "calls (push_jobs jobs s) = calls s"
  by (induction jobs arbitrary: s) (simp_all add: push_job_def)

lemma selected_three_forms:
  "selected three_forms = [entry_with ''a'' (JBool True), entry_with ''c'' (JBool True)]"
  by (simp add: selected_def three_forms_def entry_with_def)

subsection \<open>The form list\<close>

lemma foldl_items_own:
  "k \<noteq> ''__proto__'' \<Longrightarrow>
   own (foldl (\<lambda>d item. items_set item d) d0 currentList) k =
     (case last_with k currentList of None \<Rightarrow> own d0 k | Some item \<Rightarrow> Some item)"
proof (induction currentList rule: rev_induct)
  case Nil
  then show ?case by (simp add: last_with_def)
next
  case (snoc item currentList)
  then show ?case by (auto simp: last_with_def items_set_def)
qed

lemma foldl_items_proto:
  "proto (foldl (\<lambda>d item. items_set item d) d0 currentList) =
     (case last_with ''__proto__'' currentList of None \<Rightarrow> proto d0 | Some item \<Rightarrow> Some item)"
proof (induction currentList rule: rev_induct)
  case Nil
  then show ?case by (simp add: last_with_def)
next
  case (snoc item currentList)
  then show ?case by (auto simp: last_with_def items_set_def)
qed

lemma updateFormList_map:
  "updateFormList currentList tables data =
     map (\<lambda>formData. \<lparr> name = n formData, tableName = t formData, ref = r formData,
                        installed = (t formData \<in> set tables),
                        download = merged_download currentList (t formData) \<rparr>) data"
  by (simp add: updateFormList_def Let_def merged_download_def build_items_def)

text \<open>
  For a table name that is not a property of \<open>Object.prototype\<close>, and a prior list
  without an entry called \<open>'__proto__'\<close>, the download flag is the one of the last prior
  entry of that name, and \<open>true\<close> when there is none.
\<close>

lemma merged_download_plain:
  assumes "k \<notin> set object_prototype_keys"
    and "last_with ''__proto__'' currentList = None"
  shows "merged_download currentList k =
     (case last_with k currentList of None \<Rightarrow> JBool True | Some item \<Rightarrow> download item)"
proof -
  from assms(1) have k: "k \<noteq> ''__proto__''"
    by (auto simp: object_prototype_keys_def)
  show ?thesis
    using assms
    by (simp add: merged_download_def items_get_def build_items_def k foldl_items_own
        foldl_items_proto empty_items_def split: option.splits)
qed

lemma updateFormList_installed:
  "i < length data \<Longrightarrow>
   installed (updateFormList currentList tables data ! i) = (t (data ! i) \<in> set tables)"
  by (simp add: updateFormList_map)

lemma updateFormList_download:
  "i < length data \<Longrightarrow>
   download (updateFormList currentList tables data ! i)
     = merged_download currentList (t (data ! i))"
  by (simp add: updateFormList_map)

text \<open>The end-to-end example of the specification.\<close>

lemma updateFormList_example:
  "updateFormList [] [''incident''] [catalog_form ''incident'', catalog_form ''assessment'']
   = [(entry_with ''incident'' (JBool True))\<lparr> installed := True \<rparr>,
      entry_with ''assessment'' (JBool True)]"
  by (simp add: updateFormList_def Let_def items_get_def empty_items_def
      object_prototype_keys_def catalog_form_def entry_with_def)

subsection \<open>The invariant of the jobs\<close>

lemma fetching_remove1:
  "concat (map fetch_of (remove1 x xs)) =
     (case x of NetGetForm a \<Rightarrow> remove1 a (concat (map fetch_of xs))
      | _ \<Rightarrow> concat (map fetch_of xs))"
proof (induction xs)
  case Nil
  then show ?case by (simp split: task.splits)
next
  case (Cons y ys)
  then show ?case
    by (cases x; cases y) auto
qed

lemma fetching_take_task:
  "fetching (take_task x s) =
     (case x of NetGetForm a \<Rightarrow> remove1 a (fetching s) | _ \<Rightarrow> fetching s)"
  by (simp add: fetching_def take_task_def fetching_remove1 split: task.splits)

lemma run_pending_job:
  "is_pending s a \<Longrightarrow>
   run a s = s\<lparr> heap := (heap s)(a \<mapsto> (the (heap s a))\<lparr> status := Active \<rparr>),
                tasks := tasks s @ [NetGetForm a],
                calls := calls s @ [CallGetForm (job_tableName (the (heap s a)))
                                                 (job_ref (the (heap s a)))] \<rparr>"
  by (auto simp: run_def is_pending_def set_status_def Let_def split: option.splits)

lemma run_other:
  "\<not> is_pending s a \<Longrightarrow> run a s = s"
  by (auto simp: run_def is_pending_def split: option.splits)

lemma jobs_wf_run:
  assumes "jobs_wf s"
  shows "jobs_wf (run a s)"
proof (cases "is_pending s a")
  case False
  with assms show ?thesis by (simp add: run_other)
next
  case True
  then obtain job where job: "heap s a = Some job" "status job = Pending"
    by (auto simp: is_pending_def split: option.splits)
  from assms job have fresh: "a \<notin> set (fetching s)"
    by (auto simp: jobs_wf_def is_active_def)
  show ?thesis
    using assms fresh job
    by (auto simp: run_pending_job [OF True] jobs_wf_def is_active_def is_pending_def
        fetching_def)
qed

lemma run_pending_snoc:
  "run_pending (jobs @ [b]) s =
     (if is_pending (run_pending jobs s) b then run b (run_pending jobs s)
      else run_pending jobs s)"
  by (simp add: run_pending_def)

lemma jobs_wf_run_pending:
  "jobs_wf s \<Longrightarrow> jobs_wf (run_pending jobs s)"
  by (induction jobs rule: rev_induct)
     (simp_all add: run_pending_snoc jobs_wf_run, simp add: run_pending_def)

lemma is_pending_run:
  "is_pending (run b s) a = (is_pending s a \<and> a \<noteq> b)"
  by (cases "is_pending s b")
     (auto simp: run_pending_job run_other is_pending_def split: option.splits)

lemma is_pending_run_pending:
  "is_pending (run_pending jobs s) a = (is_pending s a \<and> a \<notin> set jobs)"
proof (induction jobs rule: rev_induct)
  case Nil
  then show ?case by (simp add: run_pending_def)
next
  case (snoc b jobs)
  then show ?case
    by (auto simp: run_pending_snoc is_pending_run)
qed

lemma run_frame:
  "syncJobs (run a s) = syncJobs s"
  "statusUpdate (run a s) = statusUpdate s"
  "syncInProgress (run a s) = syncInProgress s"
  "next_addr (run a s) = next_addr s"
  "deferreds (run a s) = deferreds s"
  "next_deferred (run a s) = next_deferred s"
  by (cases "is_pending s a"; simp add: run_pending_job run_other)+

lemma run_pending_frame_conj:
  "syncJobs (run_pending jobs s) = syncJobs s \<and>
   statusUpdate (run_pending jobs s) = statusUpdate s \<and>
   syncInProgress (run_pending jobs s) = syncInProgress s \<and>
   next_addr (run_pending jobs s) = next_addr s \<and>
   deferreds (run_pending jobs s) = deferreds s \<and>
   next_deferred (run_pending jobs s) = next_deferred s"
proof (induction jobs rule: rev_induct)
  case Nil
  then show ?case by (simp add: run_pending_def)
next
  case (snoc b jobs)
  then show ?case by (simp add: run_pending_snoc run_frame)
qed

lemma run_pending_frame:
  "syncJobs (run_pending jobs s) = syncJobs s"
  "statusUpdate (run_pending jobs s) = statusUpdate s"
  "syncInProgress (run_pending jobs s) = syncInProgress s"
  "next_addr (run_pending jobs s) = next_addr s"
  "deferreds (run_pending jobs s) = deferreds s"
  "next_deferred (run_pending jobs s) = next_deferred s"
  using run_pending_frame_conj [of jobs s] by simp_all

lemma jobs_inv_run_pending:
  assumes "jobs_wf s"
  shows "jobs_inv (run_pending (syncJobs s) s)"
proof -
  let ?s' = "run_pending (syncJobs s) s"
  have wf: "jobs_wf ?s'"
    using assms by (rule jobs_wf_run_pending)
  have q: "syncJobs ?s' = syncJobs s"
    by (rule run_pending_frame)
  have "a \<in> set (fetching ?s')" if "a \<in> set (syncJobs s)" for a
  proof -
    from that have "\<not> is_pending ?s' a"
      by (simp add: is_pending_run_pending)
    with wf q that show ?thesis
      by (auto simp: jobs_wf_def)
  qed
  with wf q show ?thesis
    by (auto simp: jobs_inv_def)
qed

lemma jobs_frame:
  assumes "syncJobs s' = syncJobs s" "statusUpdate s' = statusUpdate s" "heap s' = heap s"
    "next_addr s' = next_addr s" "fetching s' = fetching s"
  shows "jobs_wf s' = jobs_wf s" and "jobs_inv s' = jobs_inv s"
  using assms by (simp_all add: jobs_inv_def jobs_wf_def is_active_def is_pending_def)

lemma jobs_wf_push_job:
  assumes "jobs_wf s" "status job = Pending"
  shows "jobs_wf (push_job job s)"
proof -
  from assms(1) have free: "heap s (next_addr s) = None"
    by (auto simp: jobs_wf_def)
  then have "next_addr s \<notin> set (fetching s)"
    using assms(1) by (auto simp: jobs_wf_def is_active_def)
  with assms free show ?thesis
    by (auto simp: jobs_wf_def push_job_def is_active_def is_pending_def fetching_def
        less_Suc_eq split: option.splits)
qed

lemma jobs_wf_push_jobs:
  "jobs_wf s \<Longrightarrow> \<forall>job \<in> set jobs. status job = Pending \<Longrightarrow> jobs_wf (push_jobs jobs s)"
  by (induction jobs arbitrary: s) (simp_all add: jobs_wf_push_job)

lemma jobs_wf_generate:
  "jobs_wf s \<Longrightarrow> jobs_wf (snd (generateSyncJobs formList s))"
  by (simp add: generateSyncJobs_eq jobs_wf_push_jobs job_for_def SyncJob_def)

lemma jobs_updateSyncStatus:
  "jobs_wf s \<Longrightarrow> jobs_wf (updateSyncStatus s)"
  "jobs_inv s \<Longrightarrow> jobs_inv (updateSyncStatus s)"
  by (auto simp: jobs_inv_def jobs_wf_def updateSyncStatus_idle is_active_def is_pending_def
      fetching_def)

lemma fetch_of_replicate_callback:
  "concat (map fetch_of (replicate k (Callback d))) = []"
  by (induction k) simp_all

lemma getFormList_jobs_frame:
  "syncJobs (snd (getFormList forms s)) = syncJobs s"
  "statusUpdate (snd (getFormList forms s)) = statusUpdate s"
  "heap (snd (getFormList forms s)) = heap s"
  "next_addr (snd (getFormList forms s)) = next_addr s"
  "fetching (snd (getFormList forms s)) = fetching s"
  "syncInProgress (snd (getFormList forms s)) = syncInProgress s"
  by (simp_all add: getFormList_def q_defer_def resolve_def fetching_def
      split: option.splits list.splits)

lemma then_success_jobs_frame:
  "syncJobs (then_success d s) = syncJobs s"
  "statusUpdate (then_success d s) = statusUpdate s"
  "heap (then_success d s) = heap s"
  "next_addr (then_success d s) = next_addr s"
  "fetching (then_success d s) = fetching s"
  "syncInProgress (then_success d s) = syncInProgress s"
  by (simp_all add: then_success_def fetching_def split: option.splits promise.splits)

lemma resolve_jobs_frame:
  "syncJobs (resolve d v s) = syncJobs s"
  "statusUpdate (resolve d v s) = statusUpdate s"
  "heap (resolve d v s) = heap s"
  "next_addr (resolve d v s) = next_addr s"
  "fetching (resolve d v s) = fetching s"
  "syncInProgress (resolve d v s) = syncInProgress s"
  by (simp_all add: resolve_def fetching_def fetch_of_replicate_callback
      split: option.splits promise.splits)

lemma reject_jobs_frame:
  "syncJobs (reject d resp s) = syncJobs s"
  "statusUpdate (reject d resp s) = statusUpdate s"
  "heap (reject d resp s) = heap s"
  "next_addr (reject d resp s) = next_addr s"
  "fetching (reject d resp s) = fetching s"
  "syncInProgress (reject d resp s) = syncInProgress s"
  "tasks (reject d resp s) = tasks s"
  "calls (reject d resp s) = calls s"
  by (simp_all add: reject_def fetching_def split: option.splits promise.splits)

lemma take_task_frame:
  "syncJobs (take_task x s) = syncJobs s"
  "statusUpdate (take_task x s) = statusUpdate s"
  "heap (take_task x s) = heap s"
  "next_addr (take_task x s) = next_addr s"
  "syncInProgress (take_task x s) = syncInProgress s"
  "deferreds (take_task x s) = deferreds s"
  "next_deferred (take_task x s) = next_deferred s"
  "calls (take_task x s) = calls s"
  "tasks (take_task x s) = remove1 x (tasks s)"
  by (simp_all add: take_task_def)

lemma jobs_inv_take_other:
  "fetch_of x = [] \<Longrightarrow> jobs_inv (take_task x s) = jobs_inv s"
  by (rule jobs_frame) (auto simp: take_task_frame fetching_take_task split: task.splits)

lemma jobs_inv_synchronize:
  assumes "jobs_wf s"
  shows "jobs_inv (synchronize forms s)"
proof (cases "syncJobs s = []")
  case True
  let ?s1 = "s\<lparr> syncInProgress := True \<rparr>"
  have "jobs_inv ?s1"
    using assms True by (simp add: jobs_inv_def jobs_wf_def is_active_def is_pending_def fetching_def)
  moreover have "jobs_inv (then_success (fst (getFormList forms ?s1)) (snd (getFormList forms ?s1)))
      = jobs_inv ?s1"
    by (rule jobs_frame) (simp_all add: then_success_jobs_frame getFormList_jobs_frame)
  ultimately show ?thesis
    using True by (simp add: synchronize_def Let_def split_beta)
next
  case False
  let ?s1 = "s\<lparr> syncInProgress := True \<rparr>"
  have "jobs_wf ?s1"
    using assms by (simp add: jobs_wf_def is_active_def is_pending_def fetching_def)
  from jobs_inv_run_pending [OF this] False show ?thesis
    by (simp add: synchronize_def Let_def)
qed

lemma jobs_inv_wf: "jobs_inv s \<Longrightarrow> jobs_wf s"
  by (simp add: jobs_inv_def)

lemma jobs_inv_synchronize_then:
  assumes "jobs_inv s"
  shows "jobs_inv (synchronize_then formList s)"
proof (cases "fst (generateSyncJobs formList s) = 0")
  case True
  then have "synchronize_then formList s = updateSyncStatus s"
    by (simp add: synchronize_then_def split_beta generateSyncJobs_eq)
  with assms show ?thesis
    by (simp add: jobs_updateSyncStatus)
next
  case False
  have "jobs_wf (snd (generateSyncJobs formList s))"
    using assms by (simp add: jobs_wf_generate jobs_inv_wf)
  from jobs_inv_synchronize [OF this] False show ?thesis
    by (simp add: synchronize_then_def split_beta)
qed

lemma jobs_inv_getForm_answer:
  assumes "jobs_inv s" "NetGetForm a \<in> set (tasks s)" "terminal st"
  shows "jobs_inv (updateSyncStatus (set_status a st (take_task (NetGetForm a) s)))"
proof -
  from assms(2) have a: "a \<in> set (fetching s)"
    by (force simp: fetching_def)
  with assms(1) obtain job where job: "heap s a = Some job" "status job = Active"
    by (auto simp: jobs_inv_def jobs_wf_def is_active_def split: option.splits)
  let ?s1 = "set_status a st (take_task (NetGetForm a) s)"
  have s1: "heap ?s1 = (heap s)(a \<mapsto> job\<lparr> status := st \<rparr>)" "syncJobs ?s1 = syncJobs s"
    "\<not> statusUpdate ?s1" "next_addr ?s1 = next_addr s" "fetching ?s1 = remove1 a (fetching s)"
    using job assms(1)
    by (simp_all add: set_status_def take_task_def fetching_def fetching_remove1
        jobs_inv_def jobs_wf_def)
  let ?s2 = "updateSyncStatus ?s1"
  have s2: "heap ?s2 = heap ?s1" "syncJobs ?s2 = filter (is_open ?s1) (syncJobs ?s1)"
    "\<not> statusUpdate ?s2" "next_addr ?s2 = next_addr ?s1" "fetching ?s2 = fetching ?s1"
    using s1(3) by (simp_all add: updateSyncStatus_idle fetching_def)
  from assms(1) have d: "distinct (fetching s)"
    by (simp add: jobs_inv_def jobs_wf_def)
  show ?thesis
    using assms(1,3) job d
    by (auto simp: jobs_inv_def jobs_wf_def s2 s1 is_open_def is_active_def
        is_pending_def terminal_def)
qed

lemma jobs_inv_step:
  assumes "jobs_inv s" "step e s = Some s'"
  shows "jobs_inv s'"
proof (cases e)
  case (ApiSynchronize forms)
  with assms show ?thesis
    by (auto simp: jobs_inv_synchronize jobs_inv_wf)
next
  case (GetFormOk a)
  with assms show ?thesis
    by (auto simp: getForm_success_def terminal_def jobs_inv_getForm_answer split: if_splits)
next
  case (GetFormFailed a)
  with assms show ?thesis
    by (auto simp: getForm_error_def terminal_def jobs_inv_getForm_answer split: if_splits)
next
  case (FormListOk d data)
  have "jobs_inv (formList_success d data (take_task (NetFormList d) s)) = jobs_inv s"
    by (rule jobs_frame) (simp_all add: formList_success_def take_task_def fetching_def
        fetching_remove1)
  with FormListOk assms show ?thesis
    by (auto split: if_splits)
next
  case (FormListFailed d resp)
  have "jobs_inv (take_task (NetFormList d) s)"
    using assms(1) by (simp add: jobs_inv_take_other)
  then have "jobs_inv (updateSyncStatus (take_task (NetFormList d) s))"
    by (rule jobs_updateSyncStatus)
  moreover have "jobs_inv (formList_error d resp (take_task (NetFormList d) s))
     = jobs_inv (updateSyncStatus (take_task (NetFormList d) s))"
    by (rule jobs_frame) (simp_all add: formList_error_def Let_def reject_jobs_frame fetching_def)
  ultimately show ?thesis
    using FormListFailed assms by (auto split: if_splits)
next
  case (TablesOk d data tableNames)
  have "jobs_inv (tables_then d data tableNames (take_task (DbTables d data) s))
     = jobs_inv (take_task (DbTables d data) s)"
    by (rule jobs_frame) (simp_all add: tables_then_def resolve_jobs_frame)
  with TablesOk assms show ?thesis
    by (auto simp: jobs_inv_take_other split: if_splits)
next
  case (ThenRun d)
  with assms show ?thesis
    by (auto simp: jobs_inv_take_other jobs_inv_synchronize_then
        split: if_splits option.splits promise.splits)
next
  case TimerFire
  with assms show ?thesis
    by (auto simp: jobs_inv_take_other jobs_updateSyncStatus split: if_splits)
qed

lemma jobs_inv_init: "jobs_inv init"
  by (simp add: jobs_inv_def jobs_wf_def init_def fetching_def)

lemma reachable_jobs_inv: "reachable s \<Longrightarrow> jobs_inv s"
  by (induction rule: reachable.induct) (auto simp: jobs_inv_init jobs_inv_step)

subsection \<open>Status transitions\<close>

lemma job_step_refl [simp]: "job_step job job"
  by (simp add: job_step_def advance_def)

lemma heap_run:
  "heap (run b s) a =
     (case heap s a of
        None \<Rightarrow> None
      | Some job \<Rightarrow> Some (if a = b \<and> status job = Pending
                           then job\<lparr> status := Active \<rparr> else job))"
  by (cases "is_pending s b")
     (auto simp: run_pending_job run_other is_pending_def split: option.splits)

lemma heap_run_pending:
  "heap (run_pending jobs s) a =
     (case heap s a of
        None \<Rightarrow> None
      | Some job \<Rightarrow> Some (if a \<in> set jobs \<and> status job = Pending
                           then job\<lparr> status := Active \<rparr> else job))"
proof (induction jobs rule: rev_induct)
  case Nil
  then show ?case by (simp add: run_pending_def split: option.splits)
next
  case (snoc b jobs)
  show ?case
  proof (cases "is_pending (run_pending jobs s) b")
    case True
    then show ?thesis
      using snoc
      by (auto simp: run_pending_snoc heap_run is_pending_run_pending is_pending_def
          split: option.splits)
  next
    case False
    then show ?thesis
      using snoc
      by (auto simp: run_pending_snoc is_pending_run_pending is_pending_def
          split: option.splits)
  qed
qed

lemma heap_updateSyncStatus: "heap (updateSyncStatus s) = heap s"
  by (simp add: updateSyncStatus_def Let_def)

lemma heap_synchronize:
  "heap (synchronize forms s) =
     (if syncJobs s \<noteq> [] then heap (run_pending (syncJobs s) (s\<lparr> syncInProgress := True \<rparr>))
      else heap s)"
  by (simp add: synchronize_def Let_def split_beta then_success_jobs_frame
      getFormList_jobs_frame)

lemma job_step_synchronize:
  assumes "heap s a = Some job"
  shows "\<exists>job'. heap (synchronize forms s) a = Some job' \<and> job_step job job'"
  using assms
  by (auto simp: heap_synchronize heap_run_pending job_step_def advance_def)

lemma job_step_synchronize_then:
  assumes "jobs_inv s" "heap s a = Some job"
  shows "\<exists>job'. heap (synchronize_then formList s) a = Some job' \<and> job_step job job'"
proof -
  from assms have "a < next_addr s"
    by (auto simp: jobs_inv_def jobs_wf_def)
  then have "heap (snd (generateSyncJobs formList s)) a = Some job"
    using assms(2) by (simp add: generateSyncJobs_eq push_jobs_heap_old)
  from job_step_synchronize [OF this] show ?thesis
    using assms(2)
    by (auto simp: synchronize_then_def split_beta heap_updateSyncStatus generateSyncJobs_eq)
qed

lemma job_step_getForm_answer:
  assumes "jobs_inv s" "NetGetForm b \<in> set (tasks s)" "terminal st" "heap s a = Some job"
  shows "\<exists>job'. heap (updateSyncStatus (set_status b st (take_task (NetGetForm b) s))) a
            = Some job' \<and> job_step job job'"
proof -
  from assms(2) have "b \<in> set (fetching s)"
    by (force simp: fetching_def)
  with assms(1) obtain jb where "heap s b = Some jb" "status jb = Active"
    by (auto simp: jobs_inv_def jobs_wf_def is_active_def split: option.splits)
  with assms(3,4) show ?thesis
    by (auto simp: heap_updateSyncStatus set_status_def take_task_def job_step_def
        advance_def terminal_def)
qed

lemma job_step_step:
  assumes "jobs_inv s" "step e s = Some s'" "heap s a = Some job"
  shows "\<exists>job'. heap s' a = Some job' \<and> job_step job job'"
proof (cases e)
  case (ApiSynchronize forms)
  with assms job_step_synchronize [OF assms(3), of forms] show ?thesis
    by auto
next
  case (GetFormOk b)
  with assms job_step_getForm_answer [of s b Success a job] show ?thesis
    by (auto simp: getForm_success_def terminal_def split: if_splits)
next
  case (GetFormFailed b)
  with assms job_step_getForm_answer [of s b Error a job] show ?thesis
    by (auto simp: getForm_error_def terminal_def split: if_splits)
next
  case (FormListOk d data)
  with assms show ?thesis
    by (auto simp: formList_success_def take_task_def split: if_splits)
next
  case (FormListFailed d resp)
  with assms show ?thesis
    by (auto simp: formList_error_def Let_def reject_jobs_frame heap_updateSyncStatus
        take_task_def split: if_splits)
next
  case (TablesOk d data tableNames)
  with assms show ?thesis
    by (auto simp: tables_then_def resolve_jobs_frame take_task_def split: if_splits)
next
  case (ThenRun d)
  from assms(1) have inv: "jobs_inv (take_task (Callback d) s)"
    by (simp add: jobs_inv_take_other)
  from assms(3) have "heap (take_task (Callback d) s) a = Some job"
    by (simp add: take_task_def)
  from job_step_synchronize_then [OF inv this] ThenRun assms(2) show ?thesis
    by (auto split: if_splits option.splits promise.splits)
next
  case TimerFire
  with assms show ?thesis
    by (auto simp: heap_updateSyncStatus take_task_def split: if_splits)
qed

lemma exec_reachable:
  "reachable s \<Longrightarrow> exec es s = Some s' \<Longrightarrow> reachable s'"
proof (induction es arbitrary: s)
  case Nil
  then show ?case by simp
next
  case (Cons e es)
  then show ?case
    by (auto split: option.splits intro: reachable_step)
qed

lemma terminal_stays:
  "reachable s \<Longrightarrow> exec es s = Some s' \<Longrightarrow> heap s a = Some job \<Longrightarrow>
   terminal (status job) \<Longrightarrow> heap s' a = Some job"
proof (induction es arbitrary: s)
  case Nil
  then show ?case by simp
next
  case (Cons e es)
  from Cons.prems(2) obtain s1 where s1: "step e s = Some s1" "exec es s1 = Some s'"
    by (auto split: option.splits)
  from job_step_step [OF reachable_jobs_inv [OF Cons.prems(1)] s1(1) Cons.prems(3)]
  obtain job' where job': "heap s1 a = Some job'" "job_step job job'"
    by blast
  with Cons.prems(4) have "job' = job"
    by (auto simp: job_step_def advance_def terminal_def)
  with job' Cons.IH [OF reachable_step [OF Cons.prems(1) s1(1)] s1(2)] Cons.prems(4)
  show ?case by simp
qed

lemma job_path:
  "reachable s \<Longrightarrow> exec es s = Some s' \<Longrightarrow> heap s a = Some job \<Longrightarrow>
   \<exists>job'. heap s' a = Some job' \<and> job' = job\<lparr> status := status job' \<rparr> \<and>
          later (status job) (status job')"
proof (induction es arbitrary: s job)
  case Nil
  then show ?case by (simp add: later_def)
next
  case (Cons e es)
  from Cons.prems(2) obtain s1 where s1: "step e s = Some s1" "exec es s1 = Some s'"
    by (auto split: option.splits)
  from job_step_step [OF reachable_jobs_inv [OF Cons.prems(1)] s1(1) Cons.prems(3)]
  obtain job1 where job1: "heap s1 a = Some job1" "job1 = job\<lparr> status := status job1 \<rparr>"
    "advance (status job) (status job1)"
    by (auto simp: job_step_def)
  from Cons.IH [OF reachable_step [OF Cons.prems(1) s1(1)] s1(2) job1(1)]
  obtain job' where job': "heap s' a = Some job'" "job' = job1\<lparr> status := status job' \<rparr>"
    "later (status job1) (status job')"
    by blast
  have "later (status job) (status job')"
    using job1(3) job'(3) by (auto simp: later_def advance_def)
  moreover have "job' = job\<lparr> status := status job' \<rparr>"
  proof -
    from job1(2) obtain st1 where "job1 = job\<lparr> status := st1 \<rparr>" ..
    moreover from job'(2) obtain st' where "job' = job1\<lparr> status := st' \<rparr>" ..
    ultimately have "job' = job\<lparr> status := st' \<rparr>" by simp
    then show ?thesis by simp
  qed
  ultimately show ?case
    using job'(1) by blast
qed

subsection \<open>The invariant of the promises\<close>

lemma concat_map_remove1_nil:
  "g x = [] \<Longrightarrow> concat (map g (remove1 x xs)) = concat (map g xs)"
  by (induction xs) auto

lemma concat_map_remove1_single:
  assumes "x \<in> set xs" "g x = [d]" "distinct (concat (map g xs))"
  shows "distinct (concat (map g (remove1 x xs))) \<and>
         set (concat (map g (remove1 x xs))) = set (concat (map g xs)) - {d}"
  using assms
proof (induction xs)
  case Nil
  then show ?case by simp
next
  case (Cons y ys)
  show ?case
  proof (cases "x = y")
    case True
    with Cons.prems show ?thesis by auto
  next
    case False
    with Cons.prems have x: "x \<in> set ys" and dist: "distinct (concat (map g ys))"
      by auto
    from x Cons.prems(2) have d: "d \<in> set (concat (map g ys))"
      by force
    from Cons.IH [OF x Cons.prems(2) dist] False Cons.prems(3) d show ?thesis
      by auto
  qed
qed

lemma settling_replicate_callback:
  "concat (map settle_of (replicate k (Callback d))) = []"
  by (induction k) simp_all

lemma promises_frame:
  assumes "deferreds s' = deferreds s" "next_deferred s' = next_deferred s"
    "settling s' = settling s"
  shows "promises_inv s' = promises_inv s"
  using assms by (simp add: promises_inv_def unsettled_def)

lemma promises_inv_take_task:
  assumes "promises_inv s"
  shows "promises_inv (take_task x s)"
proof (cases "x \<in> set (tasks s)")
  case False
  then show ?thesis
    using assms by (simp add: take_task_def remove1_idem)
next
  case True
  note member = this
  show ?thesis
  proof (cases "settle_of x = []")
    case True
    have "promises_inv (take_task x s) = promises_inv s"
      by (rule promises_frame)
         (simp_all add: take_task_def settling_def concat_map_remove1_nil [of settle_of x] True)
    with assms show ?thesis by simp
  next
    case False
    then obtain d where d: "settle_of x = [d]"
      by (cases x) auto
    from assms have "distinct (concat (map settle_of (tasks s)))"
      by (simp add: promises_inv_def settling_def)
    from concat_map_remove1_single [of x "tasks s" settle_of d, OF member d this] assms
    show ?thesis
      by (auto simp: promises_inv_def settling_def take_task_def unsettled_def)
  qed
qed

lemma settling_taken:
  assumes "promises_inv s" "x \<in> set (tasks s)" "settle_of x = [d]"
  shows "d \<notin> set (settling (take_task x s))" and "unsettled (take_task x s) d"
proof -
  from assms(1) have dist: "distinct (concat (map settle_of (tasks s)))"
    by (simp add: promises_inv_def settling_def)
  from concat_map_remove1_single [of x "tasks s" settle_of d, OF assms(2,3) dist]
  show "d \<notin> set (settling (take_task x s))"
    by (simp add: settling_def take_task_def)
  from assms(2,3) have "d \<in> set (settling s)"
    by (force simp: settling_def)
  with assms(1) show "unsettled (take_task x s) d"
    by (simp add: promises_inv_def unsettled_def take_task_def)
qed

lemma promises_inv_settle:
  assumes "promises_inv s" "d \<notin> set (settling s)" "deferreds s d \<noteq> None"
    "deferreds s' = (deferreds s)(d \<mapsto> p)" "next_deferred s' = next_deferred s"
    "settling s' = settling s"
  shows "promises_inv s'"
  using assms by (auto simp: promises_inv_def unsettled_def)

lemma promises_inv_getFormList:
  assumes "promises_inv s"
  shows "promises_inv (snd (getFormList forms s))"
proof -
  let ?d = "next_deferred s"
  from assms have fresh: "deferreds s ?d = None"
    by (auto simp: promises_inv_def)
  then have nl: "?d \<notin> set (settling s)"
    using assms by (auto simp: promises_inv_def unsettled_def)
  show ?thesis
  proof (cases "\<exists>form rest. forms = Some (form # rest)")
    case True
    then obtain form rest where f: "forms = Some (form # rest)" by blast
    have eq: "snd (getFormList forms s) =
        s\<lparr> deferreds := (deferreds s)(?d \<mapsto> Resolved (form # rest)),
           next_deferred := Suc ?d \<rparr>"
      by (simp add: f getFormList_def q_defer_def resolve_def)
    show ?thesis
      using assms nl fresh
      by (auto simp: eq promises_inv_def unsettled_def settling_def less_Suc_eq)
  next
    case False
    then have eq: "snd (getFormList forms s) =
        s\<lparr> deferreds := (deferreds s)(?d \<mapsto> Unsettled 0),
           next_deferred := Suc ?d,
           tasks := tasks s @ [NetFormList ?d],
           calls := calls s @ [CallFormList] \<rparr>"
      by (cases forms; cases "the forms") (simp_all add: getFormList_def q_defer_def)
    show ?thesis
      using assms nl fresh
      by (auto simp: eq promises_inv_def unsettled_def settling_def less_Suc_eq)
  qed
qed

lemma promises_inv_then_success:
  assumes "promises_inv s"
  shows "promises_inv (then_success d s)"
  using assms
  by (auto simp: then_success_def promises_inv_def unsettled_def settling_def
      split: option.splits promise.splits)

lemma promises_inv_run:
  "promises_inv (run a s) = promises_inv s"
proof (cases "is_pending s a")
  case True
  show ?thesis
    by (rule promises_frame) (simp_all add: run_pending_job [OF True] settling_def)
next
  case False
  then show ?thesis by (simp add: run_other)
qed

lemma promises_inv_run_pending:
  "promises_inv (run_pending jobs s) = promises_inv s"
  by (induction jobs rule: rev_induct)
     (simp_all add: run_pending_snoc promises_inv_run, simp add: run_pending_def)

lemma promises_inv_synchronize:
  assumes "promises_inv s"
  shows "promises_inv (synchronize forms s)"
proof -
  let ?s1 = "s\<lparr> syncInProgress := True \<rparr>"
  have s1: "promises_inv ?s1"
    using assms by (simp add: promises_inv_def unsettled_def settling_def)
  show ?thesis
  proof (cases "syncJobs s = []")
    case True
    then show ?thesis
      using promises_inv_then_success [OF promises_inv_getFormList [OF s1]]
      by (simp add: synchronize_def Let_def split_beta)
  next
    case False
    then show ?thesis
      using s1 by (simp add: synchronize_def Let_def promises_inv_run_pending)
  qed
qed

lemma promises_inv_push_jobs:
  "promises_inv (push_jobs jobs s) = promises_inv s"
  by (rule promises_frame) (simp_all add: push_jobs_frame settling_def)

lemma promises_inv_updateSyncStatus:
  "promises_inv (updateSyncStatus s) = promises_inv s"
  by (rule promises_frame) (simp_all add: updateSyncStatus_def Let_def settling_def)

lemma promises_inv_set_status:
  "promises_inv (set_status a st s) = promises_inv s"
  by (rule promises_frame) (simp_all add: set_status_def settling_def split: option.splits)

lemma promises_inv_synchronize_then:
  assumes "promises_inv s"
  shows "promises_inv (synchronize_then formList s)"
  using assms
  by (simp add: synchronize_then_def split_beta generateSyncJobs_eq promises_inv_synchronize
      promises_inv_push_jobs promises_inv_updateSyncStatus)

lemma promises_inv_formList_success:
  assumes "promises_inv s" "NetFormList d \<in> set (tasks s)"
  shows "promises_inv (formList_success d data (take_task (NetFormList d) s))"
proof -
  let ?s0 = "take_task (NetFormList d) s"
  have inv0: "promises_inv ?s0"
    using assms(1) by (rule promises_inv_take_task)
  have "d \<notin> set (settling ?s0)" "unsettled ?s0 d"
    using settling_taken [OF assms, of d] by simp_all
  with inv0 show ?thesis
    by (auto simp: promises_inv_def formList_success_def settling_def unsettled_def)
qed

lemma promises_inv_formList_error:
  assumes "promises_inv s" "NetFormList d \<in> set (tasks s)"
  shows "promises_inv (formList_error d resp (take_task (NetFormList d) s))"
proof -
  let ?s0 = "take_task (NetFormList d) s"
  let ?s2 = "(updateSyncStatus ?s0)\<lparr> calls := calls (updateSyncStatus ?s0) @ [CallHttpError resp] \<rparr>"
  have inv0: "promises_inv ?s0"
    using assms(1) by (rule promises_inv_take_task)
  have d0: "d \<notin> set (settling ?s0)" "unsettled ?s0 d"
    using settling_taken [OF assms, of d] by simp_all
  have fr: "deferreds ?s2 = deferreds ?s0" "next_deferred ?s2 = next_deferred ?s0"
    "settling ?s2 = settling ?s0"
    by (simp_all add: updateSyncStatus_def Let_def settling_def)
  have inv2: "promises_inv ?s2"
    using inv0 promises_frame [OF fr] by simp
  from d0 fr obtain k where k: "deferreds ?s2 d = Some (Unsettled k)"
    by (auto simp: unsettled_def)
  show ?thesis
    unfolding formList_error_def Let_def
  proof (rule promises_inv_settle [OF inv2])
    show "d \<notin> set (settling ?s2)" using d0 fr by simp
    show "deferreds ?s2 d \<noteq> None" using k by simp
    show "deferreds (reject d resp ?s2) = (deferreds ?s2)(d \<mapsto> Rejected resp)"
      using k by (simp add: reject_def)
    show "next_deferred (reject d resp ?s2) = next_deferred ?s2"
      using k by (simp add: reject_def)
    show "settling (reject d resp ?s2) = settling ?s2"
      using k by (simp add: reject_def settling_def)
  qed
qed

lemma promises_inv_tables_then:
  assumes "promises_inv s" "DbTables d data \<in> set (tasks s)"
  shows "promises_inv (tables_then d data tableNames (take_task (DbTables d data) s))"
proof -
  let ?s0 = "take_task (DbTables d data) s"
  have inv0: "promises_inv ?s0"
    using assms(1) by (rule promises_inv_take_task)
  have d0: "d \<notin> set (settling ?s0)" "unsettled ?s0 d"
    using settling_taken [OF assms, of d] by simp_all
  then obtain k where k: "deferreds ?s0 d = Some (Unsettled k)"
    by (auto simp: unsettled_def)
  show ?thesis
    unfolding tables_then_def
  proof (rule promises_inv_settle [OF inv0 d0(1)])
    show "deferreds ?s0 d \<noteq> None" using k by simp
    show "deferreds (resolve d (updateFormList [] tableNames data) ?s0)
        = (deferreds ?s0)(d \<mapsto> Resolved (updateFormList [] tableNames data))"
      using k by (simp add: resolve_def)
    show "next_deferred (resolve d (updateFormList [] tableNames data) ?s0) = next_deferred ?s0"
      using k by (simp add: resolve_def)
    show "settling (resolve d (updateFormList [] tableNames data) ?s0) = settling ?s0"
      using k by (simp add: resolve_def settling_def settling_replicate_callback)
  qed
qed

lemma promises_inv_step:
  assumes "promises_inv s" "step e s = Some s'"
  shows "promises_inv s'"
proof (cases e)
  case (ApiSynchronize forms)
  with assms show ?thesis
    by (auto simp: promises_inv_synchronize)
next
  case (GetFormOk a)
  with assms show ?thesis
    by (auto simp: getForm_success_def promises_inv_updateSyncStatus promises_inv_set_status
        promises_inv_take_task split: if_splits)
next
  case (GetFormFailed a)
  with assms show ?thesis
    by (auto simp: getForm_error_def promises_inv_updateSyncStatus promises_inv_set_status
        promises_inv_take_task split: if_splits)
next
  case (FormListOk d data)
  with assms show ?thesis
    by (auto simp: promises_inv_formList_success split: if_splits)
next
  case (FormListFailed d resp)
  with assms show ?thesis
    by (auto simp: promises_inv_formList_error split: if_splits)
next
  case (TablesOk d data tableNames)
  with assms show ?thesis
    by (auto simp: promises_inv_tables_then split: if_splits)
next
  case (ThenRun d)
  with assms show ?thesis
    by (auto simp: promises_inv_take_task promises_inv_synchronize_then
        split: if_splits option.splits promise.splits)
next
  case TimerFire
  with assms show ?thesis
    by (auto simp: promises_inv_take_task promises_inv_updateSyncStatus split: if_splits)
qed

lemma promises_inv_init: "promises_inv init"
  by (simp add: promises_inv_def init_def settling_def)

lemma reachable_promises_inv: "reachable s \<Longrightarrow> promises_inv s"
  by (induction rule: reachable.induct) (auto simp: promises_inv_init promises_inv_step)

subsection \<open>The driver\<close>

lemma first_occurrences_snoc:
  "first_occurrences (xs @ [x]) =
     (if x \<in> set xs then first_occurrences xs else first_occurrences xs @ [x])"
  by (simp add: first_occurrences_def)

lemma first_occurrences_distinct:
  "distinct xs \<Longrightarrow> first_occurrences xs = xs"
  by (simp add: first_occurrences_def distinct_remdups_id)

lemma first_occurrences_Nil [simp]: "first_occurrences [] = []"
  by (simp add: first_occurrences_def)

lemma run_fields_pending:
  "is_pending s a \<Longrightarrow> tasks (run a s) = tasks s @ [NetGetForm a]"
  "is_pending s a \<Longrightarrow> calls (run a s) = calls s @ getForm_calls s [a]"
  by (auto simp: run_pending_job getForm_calls_def is_pending_def split: option.splits)

lemma job_fields_run_pending:
  "(case heap (run_pending jobs s) a of
      None \<Rightarrow> []
    | Some job \<Rightarrow> [CallGetForm (job_tableName job) (job_ref job)])
   = (case heap s a of
      None \<Rightarrow> []
    | Some job \<Rightarrow> [CallGetForm (job_tableName job) (job_ref job)])"
  by (simp add: heap_run_pending split: option.splits)

lemma run_pending_effects:
  "tasks (run_pending jobs s)
     = tasks s @ map NetGetForm (filter (is_pending s) (first_occurrences jobs)) \<and>
   calls (run_pending jobs s)
     = calls s @ getForm_calls s (filter (is_pending s) (first_occurrences jobs))"
proof (induction jobs rule: rev_induct)
  case Nil
  then show ?case by (simp add: run_pending_def getForm_calls_def)
next
  case (snoc b jobs)
  show ?case
  proof (cases "is_pending s b \<and> b \<notin> set jobs")
    case True
    then have p: "is_pending (run_pending jobs s) b"
      by (simp add: is_pending_run_pending)
    have c: "getForm_calls (run_pending jobs s) [b] = getForm_calls s [b]"
      using job_fields_run_pending [of jobs s b] by (simp add: getForm_calls_def)
    from True snoc c show ?thesis
      by (simp add: run_pending_snoc p run_fields_pending [OF p] first_occurrences_snoc
          getForm_calls_def)
  next
    case False
    then have p: "\<not> is_pending (run_pending jobs s) b"
      by (simp add: is_pending_run_pending)
    from False snoc show ?thesis
      by (auto simp: run_pending_snoc p first_occurrences_snoc)
  qed
qed

lemma synchronize_busy:
  "syncJobs s \<noteq> [] \<Longrightarrow>
   synchronize forms s = run_pending (syncJobs s) (s\<lparr> syncInProgress := True \<rparr>)"
  by (simp add: synchronize_def Let_def)

lemma synchronize_cached:
  "syncJobs s = [] \<Longrightarrow>
   synchronize (Some (form # rest)) s =
     s\<lparr> syncInProgress := True,
        deferreds := (deferreds s)(next_deferred s \<mapsto> Resolved (form # rest)),
        next_deferred := Suc (next_deferred s),
        tasks := tasks s @ [Callback (next_deferred s)] \<rparr>"
  by (simp add: synchronize_def Let_def getFormList_def q_defer_def resolve_def then_success_def)

lemma synchronize_fetch:
  "syncJobs s = [] \<Longrightarrow> forms = None \<or> forms = Some [] \<Longrightarrow>
   synchronize forms s =
     s\<lparr> syncInProgress := True,
        deferreds := (deferreds s)(next_deferred s \<mapsto> Unsettled 1),
        next_deferred := Suc (next_deferred s),
        tasks := tasks s @ [NetFormList (next_deferred s)],
        calls := calls s @ [CallFormList] \<rparr>"
  by (auto simp: synchronize_def Let_def getFormList_def q_defer_def then_success_def)

lemma syncInProgress_synchronize: "syncInProgress (synchronize forms s)"
  by (simp add: synchronize_def Let_def split_beta then_success_jobs_frame
      getFormList_jobs_frame run_pending_frame)

lemma synchronize_then_eq:
  "synchronize_then formList s =
     (if selected formList \<noteq> []
      then synchronize (Some formList) (push_jobs (map job_for (selected formList)) s)
      else updateSyncStatus s)"
  by (simp add: synchronize_then_def generateSyncJobs_eq)

subsection \<open>A failing catalog request\<close>

lemma queue_all_open:
  assumes "jobs_inv s"
  shows "filter (is_open s) (syncJobs s) = syncJobs s"
proof -
  have "is_open s a" if "a \<in> set (syncJobs s)" for a
    using assms that
    by (auto simp: jobs_inv_def jobs_wf_def is_active_def is_open_def split: option.splits)
  then show ?thesis by simp
qed

lemma updateSyncStatus_inv:
  assumes "jobs_inv s"
  shows "updateSyncStatus s =
     s\<lparr> syncInProgress := (syncJobs s \<noteq> []), calls := calls s @ [CallUpdateSyncStatus] \<rparr>"
proof -
  from assms have "\<not> statusUpdate s"
    by (simp add: jobs_inv_def jobs_wf_def)
  then show ?thesis
    by (simp add: updateSyncStatus_idle queue_all_open [OF assms])
qed

lemma formList_failed_step:
  assumes "jobs_inv s" "promises_inv s" "NetFormList d \<in> set (tasks s)"
  shows "step (FormListFailed d resp) s =
     Some (s\<lparr> syncInProgress := (syncJobs s \<noteq> []),
              deferreds := (deferreds s)(d \<mapsto> Rejected resp),
              tasks := remove1 (NetFormList d) (tasks s),
              calls := calls s @ [CallUpdateSyncStatus, CallHttpError resp] \<rparr>)"
proof -
  let ?s0 = "take_task (NetFormList d) s"
  have inv0: "jobs_inv ?s0"
    using assms(1) by (simp add: jobs_inv_take_other)
  from assms(3) have "d \<in> set (settling s)"
    by (force simp: settling_def)
  with assms(2) obtain k where k: "deferreds s d = Some (Unsettled k)"
    by (auto simp: promises_inv_def unsettled_def)
  have "formList_error d resp ?s0 =
     reject d resp (?s0\<lparr> syncInProgress := (syncJobs ?s0 \<noteq> []),
                           calls := calls ?s0 @ [CallUpdateSyncStatus, CallHttpError resp] \<rparr>)"
    by (simp add: formList_error_def Let_def updateSyncStatus_inv [OF inv0])
  then show ?thesis
    using assms(3) k
    by (simp add: reject_def take_task_def)
qed

lemma settled_stays_step:
  assumes "promises_inv s" "step e s = Some s'" "deferreds s d = Some p" "\<forall>k. p \<noteq> Unsettled k"
  shows "deferreds s' d = Some p"
proof -
  from assms(1,3) have lt: "d < next_deferred s"
    by (auto simp: promises_inv_def)
  have gfl: "deferreds (snd (getFormList forms s0)) d = Some p"
    if "deferreds s0 d = Some p" "d < next_deferred s0" for forms s0
    using that by (auto simp: getFormList_def q_defer_def resolve_def
        split: option.splits list.splits)
  have ths: "deferreds (then_success d' s0) d = Some p" if "deferreds s0 d = Some p" for d' s0
    using that assms(4) by (auto simp: then_success_def split: option.splits promise.splits)
  have res: "deferreds (resolve d' v s0) d = Some p" if "deferreds s0 d = Some p" for d' v s0
    using that assms(4) by (auto simp: resolve_def split: option.splits promise.splits)
  have rej: "deferreds (reject d' r' s0) d = Some p" if "deferreds s0 d = Some p" for d' r' s0
    using that assms(4) by (auto simp: reject_def split: option.splits promise.splits)
  have uss: "deferreds (updateSyncStatus s0) = deferreds s0" for s0
    by (simp add: updateSyncStatus_def Let_def)
  have sst: "deferreds (set_status a st s0) = deferreds s0" for a st s0
    by (simp add: set_status_def split: option.splits)
  have syn: "deferreds (synchronize forms s0) d = Some p"
    if "deferreds s0 d = Some p" "d < next_deferred s0" for forms s0
    using that gfl [of "s0\<lparr> syncInProgress := True \<rparr>" forms]
    by (auto simp: synchronize_def Let_def split_beta run_pending_frame intro!: ths)
  have snt: "deferreds (synchronize_then fl s0) d = Some p"
    if "deferreds s0 d = Some p" "d < next_deferred s0" for fl s0
    using that syn [of "push_jobs (map job_for (selected fl)) s0" "Some fl"]
    by (simp add: synchronize_then_eq push_jobs_frame uss)
  show ?thesis
  proof (cases e)
    case (ApiSynchronize forms)
    with assms(2,3) lt syn show ?thesis by auto
  next
    case (GetFormOk a)
    with assms(2,3) show ?thesis
      by (auto simp: getForm_success_def uss sst take_task_def split: if_splits)
  next
    case (GetFormFailed a)
    with assms(2,3) show ?thesis
      by (auto simp: getForm_error_def uss sst take_task_def split: if_splits)
  next
    case (FormListOk d' data)
    with assms(2,3) show ?thesis
      by (auto simp: formList_success_def take_task_def split: if_splits)
  next
    case (FormListFailed d' resp)
    with assms(2,3) show ?thesis
      by (auto simp: formList_error_def Let_def uss take_task_def intro!: rej split: if_splits)
  next
    case (TablesOk d' data tableNames)
    with assms(2,3) show ?thesis
      by (auto simp: tables_then_def take_task_def intro!: res split: if_splits)
  next
    case (ThenRun d')
    with assms(2,3) lt show ?thesis
      by (auto simp: take_task_def intro!: snt split: if_splits option.splits promise.splits)
  next
    case TimerFire
    with assms(2,3) show ?thesis
      by (auto simp: uss take_task_def split: if_splits)
  qed
qed

lemma settled_stays:
  "reachable s \<Longrightarrow> exec es s = Some s' \<Longrightarrow> deferreds s d = Some p \<Longrightarrow>
   \<forall>k. p \<noteq> Unsettled k \<Longrightarrow> deferreds s' d = Some p"
proof (induction es arbitrary: s)
  case Nil
  then show ?case by simp
next
  case (Cons e es)
  from Cons.prems(2) obtain s1 where s1: "step e s = Some s1" "exec es s1 = Some s'"
    by (auto split: option.splits)
  from settled_stays_step [OF reachable_promises_inv [OF Cons.prems(1)] s1(1) Cons.prems(3,4)]
  have "deferreds s1 d = Some p" .
  from Cons.IH [OF reachable_step [OF Cons.prems(1) s1(1)] s1(2) this Cons.prems(4)]
  show ?case .
qed

lemma flag_after_answer:
  assumes "jobs_inv s" "job_answer e" "step e s = Some s'"
  shows "syncInProgress s' = (syncJobs s' \<noteq> [])"
proof -
  have inv': "jobs_inv s'"
    using assms(1,3) by (rule jobs_inv_step)
  have "\<not> statusUpdate (set_status a st (take_task x s))" for a st x
    using assms(1) by (simp add: jobs_inv_def jobs_wf_def set_status_def take_task_def
        split: option.splits)
  then have "syncInProgress (updateSyncStatus (set_status a st (take_task x s)))
      = (syncJobs (updateSyncStatus (set_status a st (take_task x s))) \<noteq> [])" for a st x
    by (simp add: updateSyncStatus_idle)
  with assms(2,3) show ?thesis
    by (cases e) (auto simp: job_answer_def getForm_success_def getForm_error_def
        split: if_splits)
qed

lemma flag_after_answers:
  "reachable s \<Longrightarrow> syncInProgress s = (syncJobs s \<noteq> []) \<Longrightarrow> list_all job_answer es \<Longrightarrow>
   exec es s = Some s' \<Longrightarrow> syncInProgress s' = (syncJobs s' \<noteq> [])"
proof (induction es arbitrary: s)
  case Nil
  then show ?case by simp
next
  case (Cons e es)
  from Cons.prems(4) obtain s1 where s1: "step e s = Some s1" "exec es s1 = Some s'"
    by (auto split: option.splits)
  from Cons.prems(3) have e: "job_answer e" and es: "list_all job_answer es"
    by simp_all
  from flag_after_answer [OF reachable_jobs_inv [OF Cons.prems(1)] e s1(1)]
  have "syncInProgress s1 = (syncJobs s1 \<noteq> [])" .
  from Cons.IH [OF reachable_step [OF Cons.prems(1) s1(1)] this es s1(2)]
  show ?case .
qed

lemma idle_when_nothing_fetched:
  "jobs_inv s \<Longrightarrow> fetching s = [] \<Longrightarrow> syncJobs s = []"
  by (auto simp: jobs_inv_def)

lemma fetching_getForm_success:
  "fetching (getForm_success a (take_task (NetGetForm a) s)) = remove1 a (fetching s)"
  by (simp add: getForm_success_def updateSyncStatus_def Let_def set_status_def take_task_def
      fetching_def fetching_remove1 split: option.splits)

lemma answers_exist:
  "length (fetching s) = k \<Longrightarrow>
   \<exists>es s'. list_all job_answer es \<and> exec es s = Some s' \<and> fetching s' = []"
proof (induction k arbitrary: s)
  case 0
  then have "list_all job_answer [] \<and> exec [] s = Some s \<and> fetching s = []"
    by simp
  then show ?case by blast
next
  case (Suc k)
  then obtain a rest where a: "fetching s = a # rest"
    by (cases "fetching s") auto
  then have "a \<in> set (fetching s)" by simp
  then have t: "NetGetForm a \<in> set (tasks s)"
    by (auto simp: fetching_def) (case_tac x; simp)
  let ?s1 = "getForm_success a (take_task (NetGetForm a) s)"
  have st: "step (GetFormOk a) s = Some ?s1"
    using t by simp
  have "length (fetching ?s1) = k"
    using Suc.prems a by (simp add: fetching_getForm_success)
  from Suc.IH [OF this] obtain es s' where
    es: "list_all job_answer es" "exec es ?s1 = Some s'" "fetching s' = []"
    by blast
  then have "list_all job_answer (GetFormOk a # es) \<and> exec (GetFormOk a # es) s = Some s' \<and>
      fetching s' = []"
    using st by (simp add: job_answer_def)
  then show ?case by blast
qed

subsection \<open>The example runs\<close>

lemma first_call_eq:
  "first_call = init\<lparr> syncInProgress := True,
       deferreds := [0 \<mapsto> Resolved [entry_a]], next_deferred := 1,
       tasks := [Callback 0] \<rparr>"
  by (simp add: first_call_def synchronize_cached init_def)

lemma selected_entries:
  "selected [entry_a] = [entry_a]" "selected [entry_b] = []"
  by (simp_all add: selected_def entry_a_def entry_b_def entry_with_def)

lemma is_pending_flag [simp]:
  "is_pending (s\<lparr> syncInProgress := b \<rparr>) = is_pending s"
  by (simp add: is_pending_def fun_eq_iff)

lemma exec_init_reachable: "exec es init = Some s \<Longrightarrow> reachable s"
  using exec_reachable [OF reachable_init] .

lemma pending_pair_eq:
  "pending_pair = init\<lparr> syncJobs := [0, 1],
       heap := [0 \<mapsto> job_for (entry_with ''a'' (JBool True)),
                1 \<mapsto> job_for (entry_with ''c'' (JBool True))],
       next_addr := 2 \<rparr>"
  by (simp add: pending_pair_def generateSyncJobs_eq selected_three_forms push_job_def init_def)

lemma fetching_one_eq:
  "fetching_one = init\<lparr> syncJobs := [0], syncInProgress := True,
       heap := [0 \<mapsto> (job_for entry_a)\<lparr> status := Active \<rparr>], next_addr := 1,
       deferreds := [0 \<mapsto> Resolved [entry_a]], next_deferred := 1,
       tasks := [NetGetForm 0],
       calls := [CallGetForm ''a'' example_ref] \<rparr>"
  by (simp add: fetching_one_def first_call_eq synchronize_then_eq selected_entries
      take_task_def push_job_def synchronize_busy init_def)
     (simp add: run_pending_def is_pending_def run_def set_status_def job_for_def
      SyncJob_def entry_a_def entry_with_def)

lemma fetched_one_eq:
  "fetched_one = init\<lparr> syncJobs := [], syncInProgress := False,
       heap := [0 \<mapsto> (job_for entry_a)\<lparr> status := Success \<rparr>], next_addr := 1,
       deferreds := [0 \<mapsto> Resolved [entry_a]], next_deferred := 1,
       tasks := [],
       calls := [CallGetForm ''a'' example_ref, CallUpdateSyncStatus] \<rparr>"
  by (simp add: fetched_one_def fetching_one_eq getForm_success_def take_task_def
      set_status_def init_def updateSyncStatus_def Let_def is_open_def)

lemma waiting_eq:
  "waiting = init\<lparr> syncInProgress := True,
       deferreds := [0 \<mapsto> Unsettled 1], next_deferred := 1,
       tasks := [NetFormList 0], calls := [CallFormList] \<rparr>"
  by (simp add: waiting_def synchronize_fetch init_def)

lemma waiting_busy_eq:
  "waiting_busy = init\<lparr> syncJobs := [0], syncInProgress := True,
       heap := [0 \<mapsto> (job_for entry_a)\<lparr> status := Active \<rparr>], next_addr := 1,
       deferreds := [0 \<mapsto> Unsettled 1, 1 \<mapsto> Resolved [entry_a]], next_deferred := 2,
       tasks := [NetFormList 0, NetGetForm 0],
       calls := [CallFormList, CallGetForm ''a'' example_ref] \<rparr>"
  by (simp add: waiting_busy_def waiting_eq synchronize_cached synchronize_then_eq
      selected_entries take_task_def push_job_def synchronize_busy init_def)
     (simp add: run_pending_def is_pending_def run_def set_status_def job_for_def
      SyncJob_def entry_a_def entry_with_def)

lemma failed_busy_eq:
  "failed_busy = init\<lparr> syncJobs := [0], syncInProgress := True,
       heap := [0 \<mapsto> (job_for entry_a)\<lparr> status := Active \<rparr>], next_addr := 1,
       deferreds := [1 \<mapsto> Resolved [entry_a], 0 \<mapsto> Rejected server_error],
       next_deferred := 2,
       tasks := [NetGetForm 0],
       calls := [CallFormList, CallGetForm ''a'' example_ref, CallUpdateSyncStatus,
                 CallHttpError server_error] \<rparr>"
  by (simp add: failed_busy_def waiting_busy_eq formList_error_def take_task_def reject_def
      init_def updateSyncStatus_def Let_def is_open_def)

lemma failed_done_eq:
  "failed_done = init\<lparr> syncJobs := [], syncInProgress := False,
       heap := [0 \<mapsto> (job_for entry_a)\<lparr> status := Success \<rparr>], next_addr := 1,
       deferreds := [1 \<mapsto> Resolved [entry_a], 0 \<mapsto> Rejected server_error],
       next_deferred := 2,
       tasks := [],
       calls := [CallFormList, CallGetForm ''a'' example_ref, CallUpdateSyncStatus,
                 CallHttpError server_error, CallUpdateSyncStatus] \<rparr>"
  by (simp add: failed_done_def failed_busy_eq getForm_success_def take_task_def
      set_status_def init_def updateSyncStatus_def Let_def is_open_def)

lemma reachable_fetching_one: "reachable fetching_one"
proof (rule exec_init_reachable)
  show "exec [ApiSynchronize (Some [entry_a]), ThenRun 0] init = Some fetching_one"
    by (simp add: first_call_def [symmetric] fetching_one_def) (simp add: first_call_eq init_def)
qed

lemma step_fetched_one: "step (GetFormOk 0) fetching_one = Some fetched_one"
  by (simp add: fetched_one_def) (simp add: fetching_one_eq init_def)

lemma reachable_waiting: "reachable waiting"
  by (rule exec_init_reachable [of "[ApiSynchronize None]"]) (simp add: waiting_def)

lemma reachable_waiting_busy: "reachable waiting_busy"
proof (rule exec_init_reachable)
  show "exec [ApiSynchronize None, ApiSynchronize (Some [entry_a]), ThenRun 1] init
      = Some waiting_busy"
    by (simp add: waiting_def [symmetric] waiting_busy_def)
       (simp add: waiting_eq synchronize_cached init_def)
qed

lemma empty_catalog_eq:
  "empty_catalog = init\<lparr> syncJobs := [0], syncInProgress := True,
       heap := [0 \<mapsto> (job_for entry_a)\<lparr> status := Active \<rparr>], next_addr := 1,
       deferreds := [1 \<mapsto> Resolved [entry_a], 0 \<mapsto> Resolved []], next_deferred := 2,
       tasks := [NetGetForm 0, Callback 0],
       calls := [CallFormList, CallGetForm ''a'' example_ref, CallTables] \<rparr>"
  by (simp add: empty_catalog_def waiting_busy_eq formList_success_def tables_then_def
      take_task_def resolve_def updateFormList_def init_def)

lemma empty_then_eq:
  "empty_then = init\<lparr> syncJobs := [0], syncInProgress := True,
       heap := [0 \<mapsto> (job_for entry_a)\<lparr> status := Active \<rparr>], next_addr := 1,
       deferreds := [1 \<mapsto> Resolved [entry_a], 0 \<mapsto> Resolved []], next_deferred := 2,
       tasks := [NetGetForm 0],
       calls := [CallFormList, CallGetForm ''a'' example_ref, CallTables,
                 CallUpdateSyncStatus] \<rparr>"
  by (simp add: empty_then_def empty_catalog_eq synchronize_then_eq selected_def
      take_task_def init_def updateSyncStatus_def Let_def is_open_def job_for_def SyncJob_def)

lemma exec_append:
  "exec (es @ es') s = (case exec es s of None \<Rightarrow> None | Some s' \<Rightarrow> exec es' s')"
  by (induction es arbitrary: s) (simp_all split: option.splits)

subsection \<open>The filters in terms of the status, and the continuation as a turn\<close>

lemma is_open_iff:
  "is_open s = (\<lambda>a. \<exists>job. heap s a = Some job \<and> (status job = Pending \<or> status job = Active))"
  by (auto simp: is_open_def fun_eq_iff split: option.splits)

lemma is_pending_iff:
  "is_pending s = (\<lambda>a. \<exists>job. heap s a = Some job \<and> status job = Pending)"
  by (auto simp: is_pending_def fun_eq_iff split: option.splits)

lemma selected_iff:
  "selected formList = filter (\<lambda>form. download form = JBool True) formList"
proof -
  have "truthy x = (x = JBool True)" for x
    by (cases x) simp_all
  then show ?thesis
    by (simp add: selected_def)
qed

lemma generateSyncJobs_some:
  "(fst (generateSyncJobs formList s) \<noteq> 0)
     = (\<exists>form \<in> set formList. download form = JBool True)"
  by (simp add: generateSyncJobs_eq selected_iff filter_empty_conv)

lemma declined_call_eq:
  "declined_call = init\<lparr> syncInProgress := True,
       deferreds := [0 \<mapsto> Resolved [entry_b]], next_deferred := 1,
       tasks := [Callback 0] \<rparr>"
  by (simp add: declined_call_def synchronize_cached init_def)

lemma synchronize_fetch_answered:
  assumes "syncJobs s = []"
  shows "\<exists>s'. exec [FormListOk (next_deferred s) data,
                    TablesOk (next_deferred s) data tableNames] (synchronize None s) = Some s' \<and>
     deferreds s' (next_deferred s) = Some (Resolved (updateFormList [] tableNames data)) \<and>
     Callback (next_deferred s) \<in> set (tasks s')"
proof -
  let ?d = "next_deferred s"
  let ?s0 = "synchronize None s"
  have s0: "tasks ?s0 = tasks s @ [NetFormList ?d]" "deferreds ?s0 ?d = Some (Unsettled 1)"
    using assms by (simp_all add: synchronize_fetch)
  let ?s1 = "formList_success ?d data (take_task (NetFormList ?d) ?s0)"
  have st1: "step (FormListOk ?d data) ?s0 = Some ?s1"
    by (simp add: s0)
  have s1: "DbTables ?d data \<in> set (tasks ?s1)" "deferreds ?s1 ?d = Some (Unsettled 1)"
    by (simp_all add: formList_success_def take_task_def s0)
  let ?s2 = "tables_then ?d data tableNames (take_task (DbTables ?d data) ?s1)"
  have st2: "step (TablesOk ?d data tableNames) ?s1 = Some ?s2"
    using s1(1) by simp
  have d0: "deferreds (take_task (DbTables ?d data) ?s1) ?d = Some (Unsettled 1)"
    using s1(2) by (simp add: take_task_def)
  have s2: "deferreds ?s2 ?d = Some (Resolved (updateFormList [] tableNames data))"
    "Callback ?d \<in> set (tasks ?s2)"
    using d0 by (simp_all add: tables_then_def resolve_def)
  have "exec [FormListOk ?d data, TablesOk ?d data tableNames] ?s0 = Some ?s2"
    by (simp only: exec.simps st1 st2 option.case)
  with s2 show ?thesis by blast
qed

lemma step_ThenRun:
  assumes "Callback d \<in> set (tasks s)" "deferreds s d = Some (Resolved fl)"
  shows "step (ThenRun d) s =
     Some (if fst (generateSyncJobs fl (take_task (Callback d) s)) \<noteq> 0
           then synchronize (Some fl) (snd (generateSyncJobs fl (take_task (Callback d) s)))
           else updateSyncStatus (take_task (Callback d) s))"
  using assms by (auto simp: synchronize_then_eq generateSyncJobs_eq)

lemma generated_jobs_run:
  assumes "i < length (selected fl)"
  shows "heap (synchronize (Some fl) (snd (generateSyncJobs fl s))) (next_addr s + i)
     = Some \<lparr> type = Form, mode = Pull, job_tableName = tableName (selected fl ! i),
              job_ref = ref (selected fl ! i), status = Active \<rparr>"
proof -
  let ?s1 = "push_jobs (map job_for (selected fl)) s"
  have q: "syncJobs ?s1 = syncJobs s @ [next_addr s ..< next_addr s + length (selected fl)]"
    by (simp add: push_jobs_syncJobs)
  then have ne: "syncJobs ?s1 \<noteq> []"
    using assms by auto
  have mem: "next_addr s + i \<in> set (syncJobs ?s1)"
    using assms by (simp add: q)
  have h: "heap ?s1 (next_addr s + i) = Some (job_for (selected fl ! i))"
    using push_jobs_heap_new [of i "map job_for (selected fl)" s] assms by simp
  show ?thesis
    using ne mem h
    by (simp add: generateSyncJobs_eq heap_synchronize heap_run_pending job_for_def SyncJob_def)
qed

lemma incident_form_list:
  "updateFormList [] [''incident''] incident_catalog
     = [(entry_with ''incident'' (JBool True))\<lparr> installed := True \<rparr>]"
  by (simp add: updateFormList_def Let_def items_get_def empty_items_def
      object_prototype_keys_def catalog_form_def entry_with_def incident_catalog_def)

section \<open>Properties of the validation rules\<close>

lemma encode_known:
  "encode C ''isNotEmpty'' options = Return (RuleObject (isNotEmpty C (given_options options)))"
  "encode C ''isIntInRange'' options = Return (RuleObject (isIntInRange C (given_options options)))"
  "encode C ''isFloatInRange'' options
     = Return (RuleObject (isFloatInRange C (given_options options)))"
  "encode C ''isJson'' options = Return (RuleObject (isJson C (given_options options)))"
  by (simp_all add: encode_def rules_get_def)

lemma encode_unknown:
  "rule_name \<notin> set [''isNotEmpty'', ''isIntInRange'', ''isFloatInRange'', ''isJson''] \<Longrightarrow>
   rule_name \<notin> set object_prototype_keys \<Longrightarrow> encode C rule_name options = Return Null"
  by (simp add: encode_def rules_get_def)

lemma encode_absent_options:
  "encode C rule_name None = encode C rule_name (Some empty_options)"
  by (simp add: encode_def given_options_def split: rule_entry.splits)

section \<open>The claims\<close>

text \<open>
  C1. A status-aggregation pass that finds the busy flag clear leaves in the queue exactly
  the jobs whose status was pending or active, in their order, and sets \<open>syncInProgress\<close>
  to whether the queue holds such a job; with every queued job at success or error the
  queue ends empty and the flag false. The jobs themselves are not touched and the busy
  flag is clear again afterwards.
\<close>

theorem updateSyncStatus_compacts:
  "\<not> statusUpdate s \<Longrightarrow>
     syncJobs (updateSyncStatus s)
       = filter (\<lambda>a. \<exists>job. heap s a = Some job \<and> (status job = Pending \<or> status job = Active))
           (syncJobs s) \<and>
     syncInProgress (updateSyncStatus s)
       = (\<exists>a \<in> set (syncJobs s).
            \<exists>job. heap s a = Some job \<and> (status job = Pending \<or> status job = Active)) \<and>
     ((\<forall>a \<in> set (syncJobs s).
          \<exists>job. heap s a = Some job \<and> (status job = Success \<or> status job = Error))
        \<longrightarrow> syncJobs (updateSyncStatus s) = [] \<and> \<not> syncInProgress (updateSyncStatus s)) \<and>
     heap (updateSyncStatus s) = heap s \<and>
     \<not> statusUpdate (updateSyncStatus s)"
proof -
  assume idle: "\<not> statusUpdate s"
  let ?open = "\<lambda>a. \<exists>job. heap s a = Some job \<and> (status job = Pending \<or> status job = Active)"
  have q: "syncJobs (updateSyncStatus s) = filter ?open (syncJobs s)"
    and fl: "syncInProgress (updateSyncStatus s) = (filter ?open (syncJobs s) \<noteq> [])"
    and rest: "heap (updateSyncStatus s) = heap s" "\<not> statusUpdate (updateSyncStatus s)"
    using idle by (simp_all add: updateSyncStatus_idle is_open_iff)
  have fl': "syncInProgress (updateSyncStatus s) = (\<exists>a \<in> set (syncJobs s). ?open a)"
    using fl by (simp add: filter_empty_conv)
  have fin: "filter ?open (syncJobs s) = []"
    if "\<forall>a \<in> set (syncJobs s).
          \<exists>job. heap s a = Some job \<and> (status job = Success \<or> status job = Error)"
    using that by (auto simp: filter_empty_conv)
  from q fl fl' fin rest show ?thesis
    by simp
qed

theorem updateSyncStatus_compacts_witness:
  "\<not> statusUpdate open_queue \<and>
   syncJobs open_queue = [0, 1, 2, 3] \<and>
   syncJobs (updateSyncStatus open_queue) = [1, 3] \<and>
   syncInProgress (updateSyncStatus open_queue) \<and>
   \<not> statusUpdate pending_pair \<and>
   syncJobs (updateSyncStatus pending_pair) = [0, 1] \<and>
   syncInProgress (updateSyncStatus pending_pair) \<and>
   \<not> statusUpdate finished_queue \<and>
   syncJobs finished_queue = [0, 1] \<and>
   syncJobs (updateSyncStatus finished_queue) = [] \<and>
   \<not> syncInProgress (updateSyncStatus finished_queue)"
proof -
  have o: "\<not> statusUpdate open_queue" "syncJobs open_queue = [0, 1, 2, 3]"
    by (simp_all add: open_queue_def init_def)
  have p: "\<not> statusUpdate pending_pair"
    by (simp add: pending_pair_eq init_def)
  have f: "\<not> statusUpdate finished_queue" "syncJobs finished_queue = [0, 1]"
    by (simp_all add: finished_queue_def init_def)
  from updateSyncStatus_compacts [OF o(1)]
  have 1: "syncJobs (updateSyncStatus open_queue) = [1, 3]"
    "syncInProgress (updateSyncStatus open_queue)"
    by (simp_all add: open_queue_def init_def job_with_def SyncJob_def)
  from updateSyncStatus_compacts [OF p]
  have 2: "syncJobs (updateSyncStatus pending_pair) = [0, 1]"
    "syncInProgress (updateSyncStatus pending_pair)"
    by (simp_all add: pending_pair_eq init_def job_for_def SyncJob_def)
  from updateSyncStatus_compacts [OF f(1)]
  have 3: "syncJobs (updateSyncStatus finished_queue) = []"
    "\<not> syncInProgress (updateSyncStatus finished_queue)"
    by (simp_all add: finished_queue_def init_def job_with_def SyncJob_def)
  from o p f 1 2 3 show ?thesis by simp
qed

text \<open>
  C2. \<open>generateSyncJobs\<close> returns the number of entries whose download flag is true and
  appends that many jobs to the queue: fresh objects at consecutive addresses, the
  \<open>i\<close>-th being a pending pull job for the form of the \<open>i\<close>-th such entry. Nothing else
  changes, and it always returns. With no entry to download the count is 0 and the
  state, the queue included, is as before.
\<close>

theorem generateSyncJobs_count:
  "fst (generateSyncJobs formList s) = length (selected formList) \<and>
   syncJobs (snd (generateSyncJobs formList s))
     = syncJobs s @ [next_addr s ..< next_addr s + length (selected formList)] \<and>
   (\<forall>i < length (selected formList).
      heap (snd (generateSyncJobs formList s)) (next_addr s + i)
        = Some \<lparr> type = Form, mode = Pull,
                 job_tableName = tableName (selected formList ! i),
                 job_ref = ref (selected formList ! i), status = Pending \<rparr>) \<and>
   (\<forall>a. a < next_addr s \<or> next_addr s + length (selected formList) \<le> a \<longrightarrow>
      heap (snd (generateSyncJobs formList s)) a = heap s a) \<and>
   syncInProgress (snd (generateSyncJobs formList s)) = syncInProgress s \<and>
   tasks (snd (generateSyncJobs formList s)) = tasks s \<and>
   calls (snd (generateSyncJobs formList s)) = calls s \<and>
   ((\<forall>form \<in> set formList. download form \<noteq> JBool True)
      \<longrightarrow> generateSyncJobs formList s = (0, s))"
proof -
  have new: "\<forall>i < length (selected formList).
      heap (snd (generateSyncJobs formList s)) (next_addr s + i)
        = Some \<lparr> type = Form, mode = Pull,
                 job_tableName = tableName (selected formList ! i),
                 job_ref = ref (selected formList ! i), status = Pending \<rparr>"
    using push_jobs_heap_new [of _ "map job_for (selected formList)" s]
    by (simp add: generateSyncJobs_eq job_for_def SyncJob_def)
  have old: "\<forall>a. a < next_addr s \<or> next_addr s + length (selected formList) \<le> a \<longrightarrow>
      heap (snd (generateSyncJobs formList s)) a = heap s a"
    by (auto simp: generateSyncJobs_eq push_jobs_heap_old push_jobs_heap_beyond)
  have none: "(\<forall>form \<in> set formList. download form \<noteq> JBool True)
      \<longrightarrow> generateSyncJobs formList s = (0, s)"
  proof
    assume a: "\<forall>form \<in> set formList. download form \<noteq> JBool True"
    have "\<not> truthy (download form)" if "form \<in> set formList" for form
      using a that by (cases "download form") auto
    then have "selected formList = []"
      by (simp add: selected_def filter_empty_conv)
    then show "generateSyncJobs formList s = (0, s)"
      by (simp add: generateSyncJobs_eq)
  qed
  show ?thesis
    using new old none
    by (simp add: generateSyncJobs_eq push_jobs_syncJobs push_jobs_frame)
qed

theorem generateSyncJobs_count_witness:
  "fst (generateSyncJobs three_forms mixed_queue) = 2 \<and>
   syncJobs (snd (generateSyncJobs three_forms mixed_queue)) = [0, 1, 2, 3, 4] \<and>
   heap (snd (generateSyncJobs three_forms mixed_queue)) 4
     = Some \<lparr> type = Form, mode = Pull, job_tableName = ''c'', job_ref = example_ref,
              status = Pending \<rparr> \<and>
   heap (snd (generateSyncJobs three_forms mixed_queue)) 1 = Some (job_with Active) \<and>
   generateSyncJobs [entry_with ''b'' (JBool False), entry_with ''d'' JUndefined] mixed_queue
     = (0, mixed_queue)"
proof -
  have nxt: "next_addr mixed_queue = 3" "syncJobs mixed_queue = [0, 1, 2]"
    "heap mixed_queue 1 = Some (job_with Active)"
    by (simp_all add: mixed_queue_def init_def)
  have up: "[3..<5] = [3, 4::nat]"
    by (simp add: upt_rec)
  note main = generateSyncJobs_count [of three_forms mixed_queue,
      unfolded selected_three_forms nxt]
  have a: "fst (generateSyncJobs three_forms mixed_queue) = 2"
    using main by simp
  have b: "syncJobs (snd (generateSyncJobs three_forms mixed_queue)) = [0, 1, 2, 3, 4]"
    using main by (simp add: up)
  have new: "\<forall>i<2. heap (snd (generateSyncJobs three_forms mixed_queue)) (3 + i)
     = Some \<lparr> type = Form, mode = Pull,
          job_tableName = tableName ([entry_with ''a'' (JBool True),
                                      entry_with ''c'' (JBool True)] ! i),
          job_ref = ref ([entry_with ''a'' (JBool True), entry_with ''c'' (JBool True)] ! i),
          status = Pending \<rparr>"
    using main by simp
  from new [rule_format, of 1]
  have c: "heap (snd (generateSyncJobs three_forms mixed_queue)) 4
     = Some \<lparr> type = Form, mode = Pull, job_tableName = ''c'', job_ref = example_ref,
              status = Pending \<rparr>"
    by (simp add: entry_with_def)
  have d: "heap (snd (generateSyncJobs three_forms mixed_queue)) 1 = Some (job_with Active)"
    using main nxt(3) by simp
  have e: "generateSyncJobs [entry_with ''b'' (JBool False), entry_with ''d'' JUndefined]
          mixed_queue = (0, mixed_queue)"
    using generateSyncJobs_count
      [of "[entry_with ''b'' (JBool False), entry_with ''d'' JUndefined]" mixed_queue]
    by (simp add: entry_with_def)
  from a b c d e show ?thesis by simp
qed

text \<open>
  C3, at an input where the code departs from it: a catalog form whose table name is a
  property every object inherits, here \<open>constructor\<close>, with no prior list. The lookup
  in the dictionary finds the inherited property, so the entry's download flag becomes
  \<open>undefined\<close> instead of the default \<open>true\<close>.
\<close>

theorem updateFormList_inherited_key:
  "updateFormList [] [] [catalog_form ''constructor'']
     = [entry_with ''constructor'' JUndefined]"
  by (simp add: updateFormList_def Let_def items_get_def empty_items_def
      object_prototype_keys_def catalog_form_def entry_with_def)

text \<open>
  C4. \<open>run\<close> on a job that is not pending leaves the whole state as it is: the job and
  every other job, the queue, the flag, the pending requests and the list of calls
  made, so no fetch is issued and \<open>updateSyncStatus\<close> is not entered.
\<close>

theorem run_not_pending:
  "heap s a = Some job \<Longrightarrow> status job \<noteq> Pending \<Longrightarrow> run a s = s"
  by (simp add: run_def)

theorem run_not_pending_witness:
  "heap mixed_queue 1 = Some (job_with Active) \<and> status (job_with Active) \<noteq> Pending \<and>
   run 1 mixed_queue = mixed_queue \<and> calls (run 1 mixed_queue) = []"
proof -
  have h: "heap mixed_queue 1 = Some (job_with Active)"
    by (simp add: mixed_queue_def init_def)
  have st: "status (job_with Active) \<noteq> Pending"
    by (simp add: job_with_def)
  have "calls mixed_queue = []"
    by (simp add: mixed_queue_def init_def)
  with h st run_not_pending [OF h st] show ?thesis
    by simp
qed

text \<open>
  C5, as stated, at an input where it fails. The driver is called without a list and
  finds the queue empty, so it requests the catalog. Before the answer arrives it is
  called again, with a list of one form to download; the continuation of that call
  schedules a job and runs it. Then the server answers the first request with an empty
  catalog. The continuation of the first call schedules no job and enters
  \<open>updateSyncStatus\<close>, which finds the job active and leaves \<open>syncInProgress\<close> true
  instead of setting it back to false.
\<close>

theorem synchronize_flag_counterexample:
  "syncJobs init = [] \<and>
   step (ApiSynchronize None) init = Some waiting \<and>
   exec [ApiSynchronize (Some [entry_a]), ThenRun 1, FormListOk 0 [], TablesOk 0 [] []] waiting
     = Some empty_catalog \<and>
   deferreds empty_catalog 0 = Some (Resolved []) \<and>
   fst (generateSyncJobs [] (take_task (Callback 0) empty_catalog)) = 0 \<and>
   step (ThenRun 0) empty_catalog = Some empty_then \<and>
   calls empty_then = calls empty_catalog @ [CallUpdateSyncStatus] \<and>
   syncInProgress empty_then"
proof -
  have a: "syncJobs init = []"
    by (simp add: init_def)
  have b: "step (ApiSynchronize None) init = Some waiting"
    by (simp add: waiting_def)
  have c1: "exec [ApiSynchronize (Some [entry_a]), ThenRun 1] waiting = Some waiting_busy"
    by (simp add: waiting_busy_def) (simp add: waiting_eq synchronize_cached init_def)
  have c2: "exec [FormListOk 0 [], TablesOk 0 [] []] waiting_busy = Some empty_catalog"
    by (simp add: empty_catalog_def)
       (simp add: waiting_busy_eq formList_success_def take_task_def init_def)
  have c: "exec [ApiSynchronize (Some [entry_a]), ThenRun 1, FormListOk 0 [], TablesOk 0 [] []]
      waiting = Some empty_catalog"
  proof -
    have "[ApiSynchronize (Some [entry_a]), ThenRun 1, FormListOk 0 [], TablesOk 0 [] []]
        = [ApiSynchronize (Some [entry_a]), ThenRun 1] @ [FormListOk 0 [], TablesOk 0 [] []]"
      by simp
    then show ?thesis
      by (simp only: exec_append c1 c2 option.case)
  qed
  have d: "deferreds empty_catalog 0 = Some (Resolved [])"
    by (simp add: empty_catalog_eq init_def)
  have e: "fst (generateSyncJobs [] (take_task (Callback 0) empty_catalog)) = 0"
    by (simp add: generateSyncJobs_def)
  have f1: "step (ThenRun 0) empty_catalog = Some empty_then"
    by (simp add: empty_then_def) (simp add: empty_catalog_eq init_def)
  have g: "calls empty_then = calls empty_catalog @ [CallUpdateSyncStatus]"
    by (simp add: empty_then_eq empty_catalog_eq init_def)
  have h: "syncInProgress empty_then"
    by (simp add: empty_then_eq init_def)
  from a b c d e f1 g h show ?thesis by simp
qed

text \<open>
  C5, amended. The driver sets \<open>syncInProgress\<close> to true. With jobs in the queue it
  runs exactly those whose status is pending, each at its first occurrence in the queue:
  they become active and their requests are issued, all other jobs are untouched, and no
  promise is created. With an empty queue it asks for the form list: a non-empty list
  gives a resolved promise whose continuation is queued, otherwise the catalog is
  requested from the server, and the answers of the server and of the database resolve
  the promise with the updated list and queue the same continuation. When the event
  loop runs that continuation, it generates the jobs. If an entry of the list is to be
  downloaded, it calls the driver again with the resolved list, which then finds the
  queue non-empty and makes the new jobs active. If none is, it enters
  \<open>updateSyncStatus\<close>, after which the queue holds the jobs that were pending or
  active and the flag says whether there is one.
\<close>

theorem synchronize_driver:
  "syncInProgress (synchronize forms s) \<and>
   (syncJobs s \<noteq> [] \<longrightarrow>
      synchronize forms s = run_pending (syncJobs s) (s\<lparr> syncInProgress := True \<rparr>) \<and>
      (\<forall>a. heap (synchronize forms s) a =
         (case heap s a of
            None \<Rightarrow> None
          | Some job \<Rightarrow> Some (if a \<in> set (syncJobs s) \<and> status job = Pending
                               then job\<lparr> status := Active \<rparr> else job))) \<and>
      tasks (synchronize forms s)
        = tasks s @ map NetGetForm
            (filter (\<lambda>a. \<exists>job. heap s a = Some job \<and> status job = Pending)
               (first_occurrences (syncJobs s))) \<and>
      calls (synchronize forms s)
        = calls s @ getForm_calls s
            (filter (\<lambda>a. \<exists>job. heap s a = Some job \<and> status job = Pending)
               (first_occurrences (syncJobs s))) \<and>
      syncJobs (synchronize forms s) = syncJobs s \<and>
      deferreds (synchronize forms s) = deferreds s \<and>
      next_deferred (synchronize forms s) = next_deferred s) \<and>
   (syncJobs s = [] \<longrightarrow>
      synchronize (Some (form # rest)) s =
        s\<lparr> syncInProgress := True,
           deferreds := (deferreds s)(next_deferred s \<mapsto> Resolved (form # rest)),
           next_deferred := Suc (next_deferred s),
           tasks := tasks s @ [Callback (next_deferred s)] \<rparr> \<and>
      synchronize None s = synchronize (Some []) s \<and>
      synchronize None s =
        s\<lparr> syncInProgress := True,
           deferreds := (deferreds s)(next_deferred s \<mapsto> Unsettled 1),
           next_deferred := Suc (next_deferred s),
           tasks := tasks s @ [NetFormList (next_deferred s)],
           calls := calls s @ [CallFormList] \<rparr> \<and>
      (\<exists>s'. exec [FormListOk (next_deferred s) data,
                   TablesOk (next_deferred s) data tableNames] (synchronize None s) = Some s' \<and>
         deferreds s' (next_deferred s) = Some (Resolved (updateFormList [] tableNames data)) \<and>
         Callback (next_deferred s) \<in> set (tasks s'))) \<and>
   (Callback d \<in> set (tasks s1) \<and> deferreds s1 d = Some (Resolved fl) \<longrightarrow>
      step (ThenRun d) s1 =
        Some (if fst (generateSyncJobs fl (take_task (Callback d) s1)) \<noteq> 0
              then synchronize (Some fl) (snd (generateSyncJobs fl (take_task (Callback d) s1)))
              else updateSyncStatus (take_task (Callback d) s1)) \<and>
      (fst (generateSyncJobs fl (take_task (Callback d) s1)) \<noteq> 0)
        = (\<exists>form \<in> set fl. download form = JBool True) \<and>
      (fst (generateSyncJobs fl (take_task (Callback d) s1)) \<noteq> 0 \<longrightarrow>
         syncJobs (snd (generateSyncJobs fl (take_task (Callback d) s1))) \<noteq> [] \<and>
         (\<exists>s2. step (ThenRun d) s1 = Some s2 \<and> syncInProgress s2 \<and>
            (\<forall>i < length (filter (\<lambda>form. download form = JBool True) fl).
               heap s2 (next_addr s1 + i)
                 = Some \<lparr> type = Form, mode = Pull,
                          job_tableName = tableName (filter (\<lambda>form. download form = JBool True) fl ! i),
                          job_ref = ref (filter (\<lambda>form. download form = JBool True) fl ! i), status = Active \<rparr>))) \<and>
      (fst (generateSyncJobs fl (take_task (Callback d) s1)) = 0 \<and> \<not> statusUpdate s1 \<longrightarrow>
         (\<exists>s2. step (ThenRun d) s1 = Some s2 \<and>
            calls s2 = calls s1 @ [CallUpdateSyncStatus] \<and>
            tasks s2 = remove1 (Callback d) (tasks s1) \<and>
            heap s2 = heap s1 \<and>
            syncJobs s2
              = filter (\<lambda>a. \<exists>job. heap s1 a = Some job \<and>
                               (status job = Pending \<or> status job = Active)) (syncJobs s1) \<and>
            syncInProgress s2
              = (\<exists>a \<in> set (syncJobs s1).
                   \<exists>job. heap s1 a = Some job \<and>
                     (status job = Pending \<or> status job = Active))))) \<and>
   (fst (generateSyncJobs formList s) \<noteq> 0 \<longrightarrow>
      synchronize_then formList s
        = synchronize (Some formList) (snd (generateSyncJobs formList s)) \<and>
      syncJobs (snd (generateSyncJobs formList s)) \<noteq> []) \<and>
   (fst (generateSyncJobs formList s) = 0 \<longrightarrow>
      synchronize_then formList s = updateSyncStatus s \<and>
      (\<not> statusUpdate s \<longrightarrow>
         calls (synchronize_then formList s) = calls s @ [CallUpdateSyncStatus] \<and>
         syncInProgress (synchronize_then formList s)
           = (\<exists>a \<in> set (syncJobs s).
                \<exists>job. heap s a = Some job \<and> (status job = Pending \<or> status job = Active))))"
proof -
  have busy: "syncJobs s \<noteq> [] \<longrightarrow>
      synchronize forms s = run_pending (syncJobs s) (s\<lparr> syncInProgress := True \<rparr>) \<and>
      (\<forall>a. heap (synchronize forms s) a =
         (case heap s a of
            None \<Rightarrow> None
          | Some job \<Rightarrow> Some (if a \<in> set (syncJobs s) \<and> status job = Pending
                               then job\<lparr> status := Active \<rparr> else job))) \<and>
      tasks (synchronize forms s)
        = tasks s @ map NetGetForm
            (filter (\<lambda>a. \<exists>job. heap s a = Some job \<and> status job = Pending)
               (first_occurrences (syncJobs s))) \<and>
      calls (synchronize forms s)
        = calls s @ getForm_calls s
            (filter (\<lambda>a. \<exists>job. heap s a = Some job \<and> status job = Pending)
               (first_occurrences (syncJobs s))) \<and>
      syncJobs (synchronize forms s) = syncJobs s \<and>
      deferreds (synchronize forms s) = deferreds s \<and>
      next_deferred (synchronize forms s) = next_deferred s"
    using run_pending_effects [of "syncJobs s" "s\<lparr> syncInProgress := True \<rparr>"]
    by (simp add: synchronize_busy heap_run_pending run_pending_frame getForm_calls_def
        is_pending_iff)
  have idle: "syncJobs s = [] \<longrightarrow>
      synchronize (Some (form # rest)) s =
        s\<lparr> syncInProgress := True,
           deferreds := (deferreds s)(next_deferred s \<mapsto> Resolved (form # rest)),
           next_deferred := Suc (next_deferred s),
           tasks := tasks s @ [Callback (next_deferred s)] \<rparr> \<and>
      synchronize None s = synchronize (Some []) s \<and>
      synchronize None s =
        s\<lparr> syncInProgress := True,
           deferreds := (deferreds s)(next_deferred s \<mapsto> Unsettled 1),
           next_deferred := Suc (next_deferred s),
           tasks := tasks s @ [NetFormList (next_deferred s)],
           calls := calls s @ [CallFormList] \<rparr>"
    by (simp add: synchronize_cached synchronize_fetch)
  have answered: "syncJobs s = [] \<longrightarrow>
      (\<exists>s'. exec [FormListOk (next_deferred s) data,
                   TablesOk (next_deferred s) data tableNames] (synchronize None s) = Some s' \<and>
         deferreds s' (next_deferred s) = Some (Resolved (updateFormList [] tableNames data)) \<and>
         Callback (next_deferred s) \<in> set (tasks s'))"
    using synchronize_fetch_answered [of s data tableNames] by blast
  let ?s0 = "take_task (Callback d) s1"
  let ?open = "\<lambda>a. \<exists>job. heap s1 a = Some job \<and> (status job = Pending \<or> status job = Active)"
  have cont: "step (ThenRun d) s1 =
        Some (if fst (generateSyncJobs fl ?s0) \<noteq> 0
              then synchronize (Some fl) (snd (generateSyncJobs fl ?s0))
              else updateSyncStatus ?s0)"
    if "Callback d \<in> set (tasks s1)" "deferreds s1 d = Some (Resolved fl)"
    using that by (rule step_ThenRun)
  have rec_queue: "syncJobs (snd (generateSyncJobs fl ?s0)) \<noteq> []"
    if "fst (generateSyncJobs fl ?s0) \<noteq> 0"
    using that by (simp add: generateSyncJobs_eq push_jobs_syncJobs)
  have rec_run: "\<exists>s2. step (ThenRun d) s1 = Some s2 \<and> syncInProgress s2 \<and>
            (\<forall>i < length (filter (\<lambda>form. download form = JBool True) fl).
               heap s2 (next_addr s1 + i)
                 = Some \<lparr> type = Form, mode = Pull,
                          job_tableName = tableName (filter (\<lambda>form. download form = JBool True) fl ! i),
                          job_ref = ref (filter (\<lambda>form. download form = JBool True) fl ! i), status = Active \<rparr>)"
    if "Callback d \<in> set (tasks s1)" "deferreds s1 d = Some (Resolved fl)"
      "fst (generateSyncJobs fl ?s0) \<noteq> 0"
  proof -
    let ?s2 = "synchronize (Some fl) (snd (generateSyncJobs fl ?s0))"
    have "step (ThenRun d) s1 = Some ?s2"
      using cont [OF that(1,2)] that(3) by simp
    moreover have "syncInProgress ?s2"
      by (rule syncInProgress_synchronize)
    moreover have "\<forall>i < length (filter (\<lambda>form. download form = JBool True) fl).
               heap ?s2 (next_addr s1 + i)
                 = Some \<lparr> type = Form, mode = Pull,
                          job_tableName = tableName (filter (\<lambda>form. download form = JBool True) fl ! i),
                          job_ref = ref (filter (\<lambda>form. download form = JBool True) fl ! i), status = Active \<rparr>"
      using generated_jobs_run [of _ fl ?s0] by (simp add: take_task_def selected_iff)
    ultimately show ?thesis by blast
  qed
  have zero: "\<exists>s2. step (ThenRun d) s1 = Some s2 \<and>
            calls s2 = calls s1 @ [CallUpdateSyncStatus] \<and>
            tasks s2 = remove1 (Callback d) (tasks s1) \<and>
            heap s2 = heap s1 \<and>
            syncJobs s2 = filter ?open (syncJobs s1) \<and>
            syncInProgress s2 = (\<exists>a \<in> set (syncJobs s1). ?open a)"
    if "Callback d \<in> set (tasks s1)" "deferreds s1 d = Some (Resolved fl)"
      "fst (generateSyncJobs fl ?s0) = 0" "\<not> statusUpdate s1"
  proof -
    let ?s2 = "updateSyncStatus ?s0"
    have idle0: "\<not> statusUpdate ?s0"
      using that(4) by (simp add: take_task_def)
    have "step (ThenRun d) s1 = Some ?s2"
      using cont [OF that(1,2)] that(3) by simp
    moreover have "calls ?s2 = calls s1 @ [CallUpdateSyncStatus]"
      "tasks ?s2 = remove1 (Callback d) (tasks s1)" "heap ?s2 = heap s1"
      "syncJobs ?s2 = filter ?open (syncJobs s1)"
      "syncInProgress ?s2 = (\<exists>a \<in> set (syncJobs s1). ?open a)"
      unfolding updateSyncStatus_idle [OF idle0]
      by (simp_all add: take_task_def is_open_iff filter_empty_conv)
    ultimately show ?thesis by blast
  qed
  have more: "fst (generateSyncJobs formList s) \<noteq> 0 \<longrightarrow>
      synchronize_then formList s
        = synchronize (Some formList) (snd (generateSyncJobs formList s)) \<and>
      syncJobs (snd (generateSyncJobs formList s)) \<noteq> []"
    by (simp add: synchronize_then_def split_beta generateSyncJobs_eq push_jobs_syncJobs)
  have none: "fst (generateSyncJobs formList s) = 0 \<longrightarrow>
      synchronize_then formList s = updateSyncStatus s \<and>
      (\<not> statusUpdate s \<longrightarrow>
         calls (synchronize_then formList s) = calls s @ [CallUpdateSyncStatus] \<and>
         syncInProgress (synchronize_then formList s)
           = (\<exists>a \<in> set (syncJobs s).
                \<exists>job. heap s a = Some job \<and> (status job = Pending \<or> status job = Active)))"
    by (auto simp: synchronize_then_eq generateSyncJobs_eq updateSyncStatus_idle filter_empty_conv
        is_open_iff)
  have link: "Callback d \<in> set (tasks s1) \<and> deferreds s1 d = Some (Resolved fl) \<longrightarrow>
      step (ThenRun d) s1 =
        Some (if fst (generateSyncJobs fl ?s0) \<noteq> 0
              then synchronize (Some fl) (snd (generateSyncJobs fl ?s0))
              else updateSyncStatus ?s0) \<and>
      (fst (generateSyncJobs fl ?s0) \<noteq> 0)
        = (\<exists>form \<in> set fl. download form = JBool True) \<and>
      (fst (generateSyncJobs fl ?s0) \<noteq> 0 \<longrightarrow>
         syncJobs (snd (generateSyncJobs fl ?s0)) \<noteq> [] \<and>
         (\<exists>s2. step (ThenRun d) s1 = Some s2 \<and> syncInProgress s2 \<and>
            (\<forall>i < length (filter (\<lambda>form. download form = JBool True) fl).
               heap s2 (next_addr s1 + i)
                 = Some \<lparr> type = Form, mode = Pull,
                          job_tableName = tableName (filter (\<lambda>form. download form = JBool True) fl ! i),
                          job_ref = ref (filter (\<lambda>form. download form = JBool True) fl ! i), status = Active \<rparr>))) \<and>
      (fst (generateSyncJobs fl ?s0) = 0 \<and> \<not> statusUpdate s1 \<longrightarrow>
         (\<exists>s2. step (ThenRun d) s1 = Some s2 \<and>
            calls s2 = calls s1 @ [CallUpdateSyncStatus] \<and>
            tasks s2 = remove1 (Callback d) (tasks s1) \<and>
            heap s2 = heap s1 \<and>
            syncJobs s2 = filter ?open (syncJobs s1) \<and>
            syncInProgress s2 = (\<exists>a \<in> set (syncJobs s1). ?open a)))"
    using cont rec_queue rec_run zero generateSyncJobs_some [of fl ?s0] by blast
  from idle answered have idle': "syncJobs s = [] \<longrightarrow>
      synchronize (Some (form # rest)) s =
        s\<lparr> syncInProgress := True,
           deferreds := (deferreds s)(next_deferred s \<mapsto> Resolved (form # rest)),
           next_deferred := Suc (next_deferred s),
           tasks := tasks s @ [Callback (next_deferred s)] \<rparr> \<and>
      synchronize None s = synchronize (Some []) s \<and>
      synchronize None s =
        s\<lparr> syncInProgress := True,
           deferreds := (deferreds s)(next_deferred s \<mapsto> Unsettled 1),
           next_deferred := Suc (next_deferred s),
           tasks := tasks s @ [NetFormList (next_deferred s)],
           calls := calls s @ [CallFormList] \<rparr> \<and>
      (\<exists>s'. exec [FormListOk (next_deferred s) data,
                   TablesOk (next_deferred s) data tableNames] (synchronize None s) = Some s' \<and>
         deferreds s' (next_deferred s) = Some (Resolved (updateFormList [] tableNames data)) \<and>
         Callback (next_deferred s) \<in> set (tasks s'))"
    by blast
  show ?thesis
    by (intro conjI syncInProgress_synchronize busy idle' link more none)
qed

theorem synchronize_driver_witness:
  "syncJobs pending_pair \<noteq> [] \<and>
   syncInProgress (synchronize None pending_pair) \<and>
   tasks (synchronize None pending_pair) = [NetGetForm 0, NetGetForm 1] \<and>
   calls (synchronize None pending_pair)
     = [CallGetForm ''a'' example_ref, CallGetForm ''c'' example_ref] \<and>
   syncJobs init = [] \<and>
   tasks (synchronize (Some [entry_a]) init) = [Callback 0] \<and>
   tasks (synchronize None init) = [NetFormList 0] \<and>
   map_option (\<lambda>s'. deferreds s' 0)
       (exec [FormListOk 0 incident_catalog, TablesOk 0 incident_catalog [''incident'']]
          (synchronize None init))
     = Some (Some (Resolved [(entry_with ''incident'' (JBool True))\<lparr> installed := True \<rparr>])) \<and>
   Callback 0 \<in> set (tasks first_call) \<and>
   deferreds first_call 0 = Some (Resolved [entry_a]) \<and>
   fst (generateSyncJobs [entry_a] (take_task (Callback 0) first_call)) \<noteq> 0 \<and>
   map_option syncInProgress (step (ThenRun 0) first_call) = Some True \<and>
   map_option (\<lambda>s'. heap s' 0) (step (ThenRun 0) first_call)
     = Some (Some \<lparr> type = Form, mode = Pull, job_tableName = ''a'', job_ref = example_ref,
                     status = Active \<rparr>) \<and>
   Callback 0 \<in> set (tasks declined_call) \<and>
   deferreds declined_call 0 = Some (Resolved [entry_b]) \<and>
   fst (generateSyncJobs [entry_b] (take_task (Callback 0) declined_call)) = 0 \<and>
   \<not> statusUpdate declined_call \<and>
   map_option calls (step (ThenRun 0) declined_call) = Some [CallUpdateSyncStatus] \<and>
   map_option syncInProgress (step (ThenRun 0) declined_call) = Some False \<and>
   Callback 0 \<in> set (tasks empty_catalog) \<and>
   deferreds empty_catalog 0 = Some (Resolved []) \<and>
   fst (generateSyncJobs [] (take_task (Callback 0) empty_catalog)) = 0 \<and>
   \<not> statusUpdate empty_catalog \<and>
   map_option syncJobs (step (ThenRun 0) empty_catalog) = Some [0] \<and>
   map_option syncInProgress (step (ThenRun 0) empty_catalog) = Some True \<and>
   fst (generateSyncJobs [entry_a] init) \<noteq> 0 \<and>
   synchronize_then [entry_a] init
     = synchronize (Some [entry_a]) (snd (generateSyncJobs [entry_a] init)) \<and>
   fst (generateSyncJobs [entry_b] init) = 0 \<and>
   \<not> statusUpdate init \<and>
   calls (synchronize_then [entry_b] init) = [CallUpdateSyncStatus] \<and>
   \<not> syncInProgress (synchronize_then [entry_b] init)"
proof -
  have q: "syncJobs pending_pair = [0, Suc 0]" "tasks pending_pair = []" "calls pending_pair = []"
    "heap pending_pair 0 = Some (job_for (entry_with ''a'' (JBool True)))"
    "heap pending_pair (Suc 0) = Some (job_for (entry_with ''c'' (JBool True)))"
    "getForm_calls pending_pair [0, Suc 0]
       = [CallGetForm ''a'' example_ref, CallGetForm ''c'' example_ref]"
    by (simp_all add: pending_pair_eq init_def getForm_calls_def job_for_def
        SyncJob_def entry_with_def)
  have fo: "first_occurrences [0, Suc 0] = [0, Suc 0]"
    by (simp add: first_occurrences_distinct)
  have i: "syncJobs init = []" "\<not> statusUpdate init" "tasks init = []" "calls init = []"
    "next_deferred init = 0"
    by (simp_all add: init_def)
  have g: "fst (generateSyncJobs [entry_a] init) \<noteq> 0" "fst (generateSyncJobs [entry_b] init) = 0"
    by (simp_all add: generateSyncJobs_eq selected_entries)
  note busy = synchronize_driver [where forms = None and s = pending_pair]
  note idle = synchronize_driver [where forms = None and s = init and form = entry_a
      and rest = "[]" and data = incident_catalog and tableNames = "[''incident'']"]
  note more = synchronize_driver [where forms = None and s = init and formList = "[entry_a]",
      THEN conjunct2, THEN conjunct2, THEN conjunct2, THEN conjunct2, THEN conjunct1, THEN mp]
  note none = synchronize_driver [where forms = None and s = init and formList = "[entry_b]",
      THEN conjunct2, THEN conjunct2, THEN conjunct2, THEN conjunct2, THEN conjunct2, THEN mp]
  have ne: "syncJobs pending_pair \<noteq> []"
    by (simp add: q)
  from busy have 0: "syncInProgress (synchronize None pending_pair)"
    by blast
  from busy ne have "tasks (synchronize None pending_pair)
      = tasks pending_pair
        @ map NetGetForm
            (filter (\<lambda>a. \<exists>job. heap pending_pair a = Some job \<and> status job = Pending)
               (first_occurrences (syncJobs pending_pair)))"
    and "calls (synchronize None pending_pair)
      = calls pending_pair
        @ getForm_calls pending_pair
            (filter (\<lambda>a. \<exists>job. heap pending_pair a = Some job \<and> status job = Pending)
               (first_occurrences (syncJobs pending_pair)))"
    by blast+
  then have 1: "tasks (synchronize None pending_pair) = [NetGetForm 0, NetGetForm 1]"
    "calls (synchronize None pending_pair)
       = [CallGetForm ''a'' example_ref, CallGetForm ''c'' example_ref]"
    by (simp_all add: q fo job_for_def SyncJob_def)
  from idle i(1) have "synchronize (Some [entry_a]) init =
        init\<lparr> syncInProgress := True,
           deferreds := (deferreds init)(next_deferred init \<mapsto> Resolved [entry_a]),
           next_deferred := Suc (next_deferred init),
           tasks := tasks init @ [Callback (next_deferred init)] \<rparr>"
    and "synchronize None init =
        init\<lparr> syncInProgress := True,
           deferreds := (deferreds init)(next_deferred init \<mapsto> Unsettled 1),
           next_deferred := Suc (next_deferred init),
           tasks := tasks init @ [NetFormList (next_deferred init)],
           calls := calls init @ [CallFormList] \<rparr>"
    and ans: "\<exists>s'. exec [FormListOk (next_deferred init) incident_catalog,
                   TablesOk (next_deferred init) incident_catalog [''incident'']]
                  (synchronize None init) = Some s' \<and>
         deferreds s' (next_deferred init)
           = Some (Resolved (updateFormList [] [''incident''] incident_catalog)) \<and>
         Callback (next_deferred init) \<in> set (tasks s')"
    by blast+
  then have 2: "tasks (synchronize (Some [entry_a]) init) = [Callback 0]"
    "tasks (synchronize None init) = [NetFormList 0]"
    by (simp_all add: i)
  from ans [unfolded i(5)] obtain sa where sa:
    "exec [FormListOk 0 incident_catalog, TablesOk 0 incident_catalog [''incident'']]
       (synchronize None init) = Some sa"
    "deferreds sa 0 = Some (Resolved (updateFormList [] [''incident''] incident_catalog))"
    by blast
  have answered: "map_option (\<lambda>s'. deferreds s' 0)
       (exec [FormListOk 0 incident_catalog, TablesOk 0 incident_catalog [''incident'']]
          (synchronize None init))
     = Some (Some (Resolved [(entry_with ''incident'' (JBool True))\<lparr> installed := True \<rparr>]))"
    by (simp only: sa option.map incident_form_list)
  have fc: "Callback 0 \<in> set (tasks first_call)"
    "deferreds first_call 0 = Some (Resolved [entry_a])" "next_addr first_call = 0"
    "fst (generateSyncJobs [entry_a] (take_task (Callback 0) first_call)) \<noteq> 0"
    by (simp_all add: first_call_eq init_def generateSyncJobs_eq selected_entries)
  note run_link = synchronize_driver [where ?s1.0 = first_call and d = 0 and fl = "[entry_a]",
      THEN conjunct2, THEN conjunct2, THEN conjunct2, THEN conjunct1, THEN mp,
      OF conjI [OF fc(1) fc(2)], THEN conjunct2, THEN conjunct2, THEN conjunct1, THEN mp,
      OF fc(4),
      THEN conjunct2]
  from run_link have "\<exists>s2. step (ThenRun 0) first_call = Some s2 \<and> syncInProgress s2 \<and>
            (\<forall>i < length (filter (\<lambda>form. download form = JBool True) [entry_a]).
               heap s2 (next_addr first_call + i)
                 = Some \<lparr> type = Form, mode = Pull,
                          job_tableName = tableName (filter (\<lambda>form. download form = JBool True) [entry_a] ! i),
                          job_ref = ref (filter (\<lambda>form. download form = JBool True) [entry_a] ! i), status = Active \<rparr>)"
    by blast
  then obtain sb where sb: "step (ThenRun 0) first_call = Some sb" "syncInProgress sb"
    "\<forall>i < length (filter (\<lambda>form. download form = JBool True) [entry_a]).
               heap sb (next_addr first_call + i)
                 = Some \<lparr> type = Form, mode = Pull,
                          job_tableName = tableName (filter (\<lambda>form. download form = JBool True) [entry_a] ! i),
                          job_ref = ref (filter (\<lambda>form. download form = JBool True) [entry_a] ! i), status = Active \<rparr>"
    by blast
  have ea: "filter (\<lambda>form. download form = JBool True) [entry_a] = [entry_a]"
    by (simp add: entry_a_def entry_with_def)
  from sb(3) [unfolded ea fc(3), rule_format, of 0]
  have "heap sb 0 = Some \<lparr> type = Form, mode = Pull, job_tableName = ''a'',
      job_ref = example_ref, status = Active \<rparr>"
    by (simp add: entry_a_def entry_with_def)
  with sb(1,2) have 3: "map_option syncInProgress (step (ThenRun 0) first_call) = Some True"
    "map_option (\<lambda>s'. heap s' 0) (step (ThenRun 0) first_call)
     = Some (Some \<lparr> type = Form, mode = Pull, job_tableName = ''a'', job_ref = example_ref,
                     status = Active \<rparr>)"
    by (simp_all only: option.map)
  have dc: "Callback 0 \<in> set (tasks declined_call)"
    "deferreds declined_call 0 = Some (Resolved [entry_b])"
    "fst (generateSyncJobs [entry_b] (take_task (Callback 0) declined_call)) = 0"
    "\<not> statusUpdate declined_call" "calls declined_call = []" "syncJobs declined_call = []"
    by (simp_all add: declined_call_eq init_def generateSyncJobs_eq selected_entries)
  note zero_link = synchronize_driver
     [where ?s1.0 = declined_call and d = 0 and fl = "[entry_b]",
      THEN conjunct2, THEN conjunct2, THEN conjunct2, THEN conjunct1, THEN mp,
      OF conjI [OF dc(1) dc(2)], THEN conjunct2, THEN conjunct2, THEN conjunct2, THEN mp,
      OF conjI [OF dc(3) dc(4)]]
  from zero_link have "\<exists>s2. step (ThenRun 0) declined_call = Some s2 \<and>
            calls s2 = calls declined_call @ [CallUpdateSyncStatus] \<and>
            syncInProgress s2
              = (\<exists>a \<in> set (syncJobs declined_call).
                   \<exists>job. heap declined_call a = Some job \<and>
                     (status job = Pending \<or> status job = Active))"
    by blast
  then obtain sc where sc: "step (ThenRun 0) declined_call = Some sc"
    "calls sc = [CallUpdateSyncStatus]" "\<not> syncInProgress sc"
    by (auto simp only: dc(5,6) append_Nil list.set ball_empty simp_thms)
  then have 4: "map_option calls (step (ThenRun 0) declined_call) = Some [CallUpdateSyncStatus]"
    "map_option syncInProgress (step (ThenRun 0) declined_call) = Some False"
    by (simp_all only: option.map simp_thms)
  have ec: "Callback 0 \<in> set (tasks empty_catalog)"
    "deferreds empty_catalog 0 = Some (Resolved [])"
    "fst (generateSyncJobs [] (take_task (Callback 0) empty_catalog)) = 0"
    "\<not> statusUpdate empty_catalog" "syncJobs empty_catalog = [0]"
    "heap empty_catalog 0 = Some ((job_for entry_a)\<lparr> status := Active \<rparr>)"
    by (simp_all add: empty_catalog_eq init_def generateSyncJobs_def)
  note open_link = synchronize_driver
     [where ?s1.0 = empty_catalog and d = 0 and fl = "[]",
      THEN conjunct2, THEN conjunct2, THEN conjunct2, THEN conjunct1, THEN mp,
      OF conjI [OF ec(1) ec(2)], THEN conjunct2, THEN conjunct2, THEN conjunct2, THEN mp,
      OF conjI [OF ec(3) ec(4)]]
  from open_link have "\<exists>s2. step (ThenRun 0) empty_catalog = Some s2 \<and>
            syncJobs s2
              = filter (\<lambda>a. \<exists>job. heap empty_catalog a = Some job \<and>
                               (status job = Pending \<or> status job = Active))
                  (syncJobs empty_catalog) \<and>
            syncInProgress s2
              = (\<exists>a \<in> set (syncJobs empty_catalog).
                   \<exists>job. heap empty_catalog a = Some job \<and>
                     (status job = Pending \<or> status job = Active))"
    by blast
  then obtain sd where sd: "step (ThenRun 0) empty_catalog = Some sd"
    "syncJobs sd
              = filter (\<lambda>a. \<exists>job. heap empty_catalog a = Some job \<and>
                               (status job = Pending \<or> status job = Active))
                  (syncJobs empty_catalog)"
    "syncInProgress sd
              = (\<exists>a \<in> set (syncJobs empty_catalog).
                   \<exists>job. heap empty_catalog a = Some job \<and>
                     (status job = Pending \<or> status job = Active))"
    by blast
  from sd(2,3) have "syncJobs sd = [0]" "syncInProgress sd"
    by (simp_all add: ec(5,6))
  with sd(1) have 5: "map_option syncJobs (step (ThenRun 0) empty_catalog) = Some [0]"
    "map_option syncInProgress (step (ThenRun 0) empty_catalog) = Some True"
    by (simp_all only: option.map simp_thms)
  have 6: "synchronize_then [entry_a] init
     = synchronize (Some [entry_a]) (snd (generateSyncJobs [entry_a] init))"
    using more [OF g(1)] by blast
  from none [OF g(2)] i(2) have "calls (synchronize_then [entry_b] init) = calls init @ [CallUpdateSyncStatus]"
    and "syncInProgress (synchronize_then [entry_b] init)
       = (\<exists>a \<in> set (syncJobs init).
            \<exists>job. heap init a = Some job \<and> (status job = Pending \<or> status job = Active))"
    by blast+
  then have 7: "calls (synchronize_then [entry_b] init) = [CallUpdateSyncStatus]"
    "\<not> syncInProgress (synchronize_then [entry_b] init)"
    by (simp_all add: i)
  from ne 0 1 i(1,2) 2 answered fc(1,2,4) 3 dc(1-4) 4 ec(1-4) 5 g 6 7 show ?thesis
    by simp
qed

text \<open>
  C6. When the catalog request of a reachable state fails, the promise of
  \<open>getFormList\<close> is rejected with the response, \<open>updateSyncStatus\<close> and then
  \<open>emServer.httpError\<close> are called with it, the queue and the jobs are as before, nothing
  new is pending, and the continuation of that promise can never run. The flag is true
  afterwards only if jobs are still in the queue; their requests can all be answered,
  and once they are the flag is false.
\<close>

theorem catalog_failure:
  assumes "reachable s" and "NetFormList d \<in> set (tasks s)"
  shows "\<exists>s'. step (FormListFailed d resp) s = Some s' \<and>
     deferreds s' d = Some (Rejected resp) \<and>
     calls s' = calls s @ [CallUpdateSyncStatus, CallHttpError resp] \<and>
     syncJobs s' = syncJobs s \<and> heap s' = heap s \<and> next_addr s' = next_addr s \<and>
     tasks s' = remove1 (NetFormList d) (tasks s) \<and>
     (\<forall>es s''. exec es s' = Some s'' \<longrightarrow> step (ThenRun d) s'' = None) \<and>
     syncInProgress s' = (syncJobs s \<noteq> []) \<and>
     (\<exists>es s''. list_all job_answer es \<and> exec es s' = Some s'' \<and> fetching s'' = []) \<and>
     (\<forall>es s''. list_all job_answer es \<and> exec es s' = Some s'' \<and> fetching s'' = []
        \<longrightarrow> \<not> syncInProgress s'')"
proof -
  let ?s' = "s\<lparr> syncInProgress := (syncJobs s \<noteq> []),
              deferreds := (deferreds s)(d \<mapsto> Rejected resp),
              tasks := remove1 (NetFormList d) (tasks s),
              calls := calls s @ [CallUpdateSyncStatus, CallHttpError resp] \<rparr>"
  have st: "step (FormListFailed d resp) s = Some ?s'"
    using formList_failed_step [OF reachable_jobs_inv [OF assms(1)]
        reachable_promises_inv [OF assms(1)] assms(2)] .
  have r': "reachable ?s'"
    using assms(1) st by (rule reachable_step)
  have never: "step (ThenRun d) s'' = None" if "exec es ?s' = Some s''" for es s''
  proof -
    have "deferreds ?s' d = Some (Rejected resp)" by simp
    from settled_stays [OF r' that this] have "deferreds s'' d = Some (Rejected resp)"
      by simp
    then show ?thesis by simp
  qed
  have ex: "\<exists>es s''. list_all job_answer es \<and> exec es ?s' = Some s'' \<and> fetching s'' = []"
    using answers_exist [of ?s'] by simp
  have settles: "\<not> syncInProgress s''"
    if "list_all job_answer es" "exec es ?s' = Some s''" "fetching s'' = []" for es s''
  proof -
    have "syncInProgress ?s' = (syncJobs ?s' \<noteq> [])" by simp
    from flag_after_answers [OF r' this that(1,2)]
    have "syncInProgress s'' = (syncJobs s'' \<noteq> [])" .
    moreover have "syncJobs s'' = []"
      using reachable_jobs_inv [OF exec_reachable [OF r' that(2)]] that(3)
      by (rule idle_when_nothing_fetched)
    ultimately show ?thesis by simp
  qed
  have never': "\<forall>es s''. exec es ?s' = Some s'' \<longrightarrow> step (ThenRun d) s'' = None"
    using never by blast
  have settles': "\<forall>es s''. list_all job_answer es \<and> exec es ?s' = Some s'' \<and> fetching s'' = []
        \<longrightarrow> \<not> syncInProgress s''"
    using settles by blast
  have proj: "deferreds ?s' d = Some (Rejected resp)"
    "calls ?s' = calls s @ [CallUpdateSyncStatus, CallHttpError resp]"
    "syncJobs ?s' = syncJobs s" "heap ?s' = heap s" "next_addr ?s' = next_addr s"
    "tasks ?s' = remove1 (NetFormList d) (tasks s)"
    "syncInProgress ?s' = (syncJobs s \<noteq> [])"
    by simp_all
  show ?thesis
    by (rule exI [of _ ?s']) (intro conjI st proj never' ex settles')
qed

theorem catalog_failure_witness:
  "reachable waiting \<and> NetFormList 0 \<in> set (tasks waiting) \<and>
   map_option syncInProgress (step (FormListFailed 0 server_error) waiting) = Some False \<and>
   map_option (\<lambda>s. deferreds s 0) (step (FormListFailed 0 server_error) waiting)
     = Some (Some (Rejected server_error)) \<and>
   map_option calls (step (FormListFailed 0 server_error) waiting)
     = Some [CallFormList, CallUpdateSyncStatus, CallHttpError server_error] \<and>
   map_option syncJobs (step (FormListFailed 0 server_error) waiting) = Some [] \<and>
   reachable waiting_busy \<and> NetFormList 0 \<in> set (tasks waiting_busy) \<and>
   step (FormListFailed 0 server_error) waiting_busy = Some failed_busy \<and>
   syncInProgress failed_busy \<and>
   exec [GetFormOk 0] failed_busy = Some failed_done \<and>
   \<not> syncInProgress failed_done"
proof -
  have t: "NetFormList 0 \<in> set (tasks waiting)" "syncJobs waiting = []"
    "calls waiting = [CallFormList]"
    by (simp_all add: waiting_eq init_def)
  from catalog_failure [OF reachable_waiting t(1), of server_error]
  obtain s' where s': "step (FormListFailed 0 server_error) waiting = Some s'"
    "deferreds s' 0 = Some (Rejected server_error)"
    "calls s' = calls waiting @ [CallUpdateSyncStatus, CallHttpError server_error]"
    "syncJobs s' = syncJobs waiting"
    "syncInProgress s' = (syncJobs waiting \<noteq> [])"
    by blast
  have tb: "NetFormList 0 \<in> set (tasks waiting_busy)" "syncJobs waiting_busy \<noteq> []"
    by (simp_all add: waiting_busy_eq init_def)
  have st: "step (FormListFailed 0 server_error) waiting_busy = Some failed_busy"
    by (simp add: failed_busy_def) (simp add: waiting_busy_eq init_def)
  have ex: "exec [GetFormOk 0] failed_busy = Some failed_done"
    by (simp add: failed_done_def) (simp add: failed_busy_eq init_def)
  have fe: "fetching failed_done = []"
    by (simp add: failed_done_eq init_def fetching_def)
  from catalog_failure [OF reachable_waiting_busy tb(1), of server_error] st
  have flag: "syncInProgress failed_busy = (syncJobs waiting_busy \<noteq> [])"
    and settle: "\<forall>es s''. list_all job_answer es \<and> exec es failed_busy = Some s'' \<and>
         fetching s'' = [] \<longrightarrow> \<not> syncInProgress s''"
    by auto
  have la: "list_all job_answer [GetFormOk 0]"
    by (simp add: job_answer_def)
  from settle la ex fe have settled: "\<not> syncInProgress failed_done"
    by blast
  from reachable_waiting t s' reachable_waiting_busy tb st flag ex settled show ?thesis
    by simp
qed

text \<open>
  C7. A job is created pending. Every turn of the event loop, from a reachable state,
  leaves the status of a job as it is or moves it from pending to active or from
  active to success or error, and changes no other field. Over any sequence of turns
  the status stays or moves forward along that path, and a job at success or error is
  the same afterwards.
\<close>

theorem job_status_transitions:
  "status (SyncJob ty md tn rf) = Pending \<and>
   (reachable s \<and> step e s = Some s' \<and> heap s a = Some job \<longrightarrow>
      (\<exists>job'. heap s' a = Some job' \<and> job' = job\<lparr> status := status job' \<rparr> \<and>
          (status job' = status job \<or>
           (status job = Pending \<and> status job' = Active) \<or>
           (status job = Active \<and> (status job' = Success \<or> status job' = Error))))) \<and>
   (reachable s0 \<and> exec es s0 = Some s1 \<and> heap s0 b = Some job0 \<longrightarrow>
      (\<exists>job1. heap s1 b = Some job1 \<and> job1 = job0\<lparr> status := status job1 \<rparr> \<and>
          (status job1 = status job0 \<or> status job0 = Pending \<or>
           (status job0 = Active \<and> (status job1 = Success \<or> status job1 = Error))) \<and>
          (status job0 = Success \<or> status job0 = Error \<longrightarrow> job1 = job0)))"
proof -
  have one: "\<exists>job'. heap s' a = Some job' \<and> job' = job\<lparr> status := status job' \<rparr> \<and>
          (status job' = status job \<or>
           (status job = Pending \<and> status job' = Active) \<or>
           (status job = Active \<and> (status job' = Success \<or> status job' = Error)))"
    if "reachable s" "step e s = Some s'" "heap s a = Some job"
    using job_step_step [OF reachable_jobs_inv [OF that(1)] that(2,3)]
    by (auto simp: job_step_def advance_def)
  have many: "\<exists>job1. heap s1 b = Some job1 \<and> job1 = job0\<lparr> status := status job1 \<rparr> \<and>
          (status job1 = status job0 \<or> status job0 = Pending \<or>
           (status job0 = Active \<and> (status job1 = Success \<or> status job1 = Error))) \<and>
          (status job0 = Success \<or> status job0 = Error \<longrightarrow> job1 = job0)"
    if "reachable s0" "exec es s0 = Some s1" "heap s0 b = Some job0"
  proof -
    from job_path [OF that] obtain job1 where job1: "heap s1 b = Some job1"
      "job1 = job0\<lparr> status := status job1 \<rparr>" "later (status job0) (status job1)"
      by blast
    have "job1 = job0" if "status job0 = Success \<or> status job0 = Error"
      using terminal_stays [OF \<open>reachable s0\<close> \<open>exec es s0 = Some s1\<close> \<open>heap s0 b = Some job0\<close>]
        that job1(1) by (simp add: terminal_def)
    with job1 show ?thesis
      by (auto simp: later_def)
  qed
  from one many show ?thesis
    by (simp add: SyncJob_def)
qed

theorem job_status_transitions_witness:
  "reachable fetching_one \<and> step (GetFormOk 0) fetching_one = Some fetched_one \<and>
   heap fetching_one 0 = Some ((job_for entry_a)\<lparr> status := Active \<rparr>) \<and>
   heap fetched_one 0 = Some ((job_for entry_a)\<lparr> status := Success \<rparr>) \<and>
   reachable fetched_one \<and>
   exec [ApiSynchronize None, FormListFailed 1 server_error] fetched_one
     = Some (formList_error 1 server_error
               (take_task (NetFormList 1) (synchronize None fetched_one))) \<and>
   heap (formList_error 1 server_error
          (take_task (NetFormList 1) (synchronize None fetched_one))) 0
     = Some ((job_for entry_a)\<lparr> status := Success \<rparr>)"
proof -
  let ?job = "(job_for entry_a)\<lparr> status := Active \<rparr>"
  let ?done = "(job_for entry_a)\<lparr> status := Success \<rparr>"
  let ?last = "formList_error 1 server_error
      (take_task (NetFormList 1) (synchronize None fetched_one))"
  have h: "heap fetching_one 0 = Some ?job"
    by (simp add: fetching_one_eq init_def)
  have h': "heap fetched_one 0 = Some ?done" "status ?done = Success"
    by (simp_all add: fetched_one_eq init_def)
  have r': "reachable fetched_one"
    using reachable_fetching_one step_fetched_one by (rule reachable_step)
  have ex: "exec [ApiSynchronize None, FormListFailed 1 server_error] fetched_one = Some ?last"
    by (simp add: fetched_one_eq synchronize_fetch init_def)
  note inst = job_status_transitions
    [of _ _ _ _ fetching_one "GetFormOk 0" fetched_one 0 ?job
        fetched_one "[ApiSynchronize None, FormListFailed 1 server_error]" ?last 0 ?done]
  from inst r' ex h' have "heap ?last 0 = Some ?done"
    by auto
  with reachable_fetching_one step_fetched_one h h' r' ex show ?thesis
    by simp
qed

text \<open>
  C8. Given a non-empty list, \<open>getFormList\<close> returns a new promise that is already
  resolved with that list when the function returns; no request to the server and no
  query of the database is made, as the pending requests and the calls are unchanged.
\<close>

theorem getFormList_cached:
  "getFormList (Some (form # forms)) s =
     (next_deferred s,
      s\<lparr> deferreds := (deferreds s)(next_deferred s \<mapsto> Resolved (form # forms)),
         next_deferred := Suc (next_deferred s) \<rparr>) \<and>
   deferreds (snd (getFormList (Some (form # forms)) s)) (fst (getFormList (Some (form # forms)) s))
     = Some (Resolved (form # forms)) \<and>
   tasks (snd (getFormList (Some (form # forms)) s)) = tasks s \<and>
   calls (snd (getFormList (Some (form # forms)) s)) = calls s"
  by (simp add: getFormList_def q_defer_def resolve_def)

text \<open>
  C9. The list returned by \<open>updateFormList\<close> has one entry per catalog element, in the
  catalog's order, with the element's name, table name and reference. A prior entry
  whose table name is not in the catalog has no entry in the result.
\<close>

theorem updateFormList_follows_catalog:
  "length (updateFormList currentList tables data) = length data \<and>
   map tableName (updateFormList currentList tables data) = map t data \<and>
   map name (updateFormList currentList tables data) = map n data \<and>
   map ref (updateFormList currentList tables data) = map r data \<and>
   (\<forall>item \<in> set currentList. tableName item \<notin> set (map t data) \<longrightarrow>
      (\<forall>entry \<in> set (updateFormList currentList tables data).
         tableName entry \<noteq> tableName item))"
  by (auto simp: updateFormList_map comp_def image_iff)

theorem updateFormList_follows_catalog_witness:
  "entry_with ''old'' (JBool False) \<in> set [entry_with ''old'' (JBool False)] \<and>
   tableName (entry_with ''old'' (JBool False))
     \<notin> set (map t [catalog_form ''incident'', catalog_form ''assessment'']) \<and>
   map tableName (updateFormList [entry_with ''old'' (JBool False)] [''incident'']
                    [catalog_form ''incident'', catalog_form ''assessment''])
     = [''incident'', ''assessment''] \<and>
   ''old'' \<notin> set (map tableName (updateFormList [entry_with ''old'' (JBool False)]
                     [''incident''] [catalog_form ''incident'', catalog_form ''assessment'']))"
  using updateFormList_follows_catalog
    [of "[entry_with ''old'' (JBool False)]" "[''incident'']"
        "[catalog_form ''incident'', catalog_form ''assessment'']"]
  by (simp add: entry_with_def catalog_form_def)

text \<open>
  C10, at inputs where the code departs from it: the rule names \<open>constructor\<close> and
  \<open>__proto__\<close> are none of the four rules, yet \<open>rules[name]\<close> finds the property
  inherited from \<open>Object.prototype\<close>. For the first, \<open>encode\<close> returns the options object
  (the empty object when none is given), not \<open>null\<close>; for the second it throws.
\<close>

theorem encode_inherited_name:
  "encode C ''constructor'' None = Return (OptionsObject empty_options) \<and>
   encode C ''__proto__'' (Some opts) = TypeError"
  by (simp add: encode_def rules_get_def object_prototype_keys_def call_inherited_def
      given_options_def)

end
